theory Spec2Isabelle
  imports Main "HOL-Library.Multiset"
begin

section \<open>The comments migration: data model\<close>

text \<open>
  The migration \<open>up\<close>/\<open>down\<close> moves the comments kept in the activity log
  (\<open>directus_activity.comment\<close>) into a table of their own (\<open>directus_comments\<close>)
  and back. The database is an explicit state; every statement the migration sends
  either succeeds with a new state or raises a database error.
\<close>

text \<open>
  Modelled from the spec: the enum \<open>Action\<close> of the package \<open>@directus/constants\<close> is
  imported by the migration and is not part of the sources at hand. The migration uses
  its members \<open>CREATE\<close> and \<open>COMMENT\<close>; every other member is \<open>OtherAction\<close>.
\<close>

datatype Action = CREATE | COMMENT | OtherAction string

type_synonym uuid = string

type_synonym timestamp = int

text \<open>
  A row of \<open>directus_activity\<close>: the columns the migration reads and writes. The
  migration copies \<open>user\<close> and \<open>timestamp\<close> as they are, null included; the other
  columns of the table are never named by it.
\<close>

record ActivityRecord =
  act_id :: nat
  act_action :: Action
  act_collection :: string
  act_item :: string
  act_comment :: "string option"
  act_user :: "uuid option"
  act_timestamp :: "timestamp option"

text \<open>A row of \<open>directus_comments\<close>, with the columns \<open>createTable\<close> declares.\<close>

record CommentRecord =
  c_id :: uuid
  c_collection :: string
  c_item :: string
  c_comment :: "string option"
  c_date_created :: "timestamp option"
  c_date_updated :: "timestamp option"
  c_user_created :: "uuid option"
  c_user_updated :: "uuid option"

datatype db_error =
  TableExists | NoSuchTable | UniqueViolation | NotNullViolation
  | ForeignKeyViolation | ConstraintViolation

text \<open>
  The statements the migration sends to the database, in the order it sends them. The
  journal is kept beside the tables so that properties of the order of statements and
  of the transaction boundaries can be stated; no statement reads it, and a rollback
  does not shorten it.
\<close>

datatype stmt =
  CreateTable | DropTable
  | SelectActivityComments | SelectComments
  | Begin | Commit | Rollback
  | InsertComment uuid
  | UpdateActivity nat
  | InsertActivity
  | SelectMigrated uuid
  | SelectUnmigrated string string

text \<open>
  The database: \<open>directus_collections\<close> and \<open>directus_users\<close> by their keys (the
  targets of the foreign keys), the rows of \<open>directus_activity\<close> in storage order, and
  \<open>directus_comments\<close>, which is \<open>None\<close> while the table does not exist. \<open>uuid_calls\<close>
  counts the calls of \<open>randomUUID()\<close>.
\<close>

record db =
  directus_collections :: "string set"
  directus_users :: "uuid set"
  directus_activity :: "ActivityRecord list"
  directus_comments :: "CommentRecord list option"
  journal :: "stmt list"
  uuid_calls :: nat

text \<open>
  What the migration takes from outside: the identifiers \<open>randomUUID()\<close> returns (the
  n-th call returns \<open>randomUUID env n\<close>), the database clock \<open>knex.fn.now()\<close> (one
  value for the run; it only fills the default of \<open>date_updated\<close>), and the
  constraints of \<open>directus_activity\<close>, a table an earlier migration created: a write
  that would leave a row \<open>r\<close> with \<open>\<not> activity_ok env r\<close> is rejected.
\<close>

record env =
  randomUUID :: "nat \<Rightarrow> uuid"
  now :: timestamp
  activity_ok :: "ActivityRecord \<Rightarrow> bool"

type_synonym cmd = "db \<Rightarrow> db_error option \<times> db"

definition sent :: "stmt \<Rightarrow> db \<Rightarrow> db" where
  "sent q s = s\<lparr>journal := journal s @ [q]\<rparr>"

section \<open>The statements\<close>

text \<open>\<open>knex.schema.createTable('directus_comments', ...)\<close>\<close>

definition createTable :: cmd where
  "createTable s =
     (case directus_comments s of
        Some rows \<Rightarrow> (Some TableExists, sent CreateTable s)
      | None \<Rightarrow> (None, sent CreateTable (s\<lparr>directus_comments := Some []\<rparr>)))"

text \<open>\<open>knex.schema.dropTable('directus_comments')\<close>\<close>

definition dropTable :: cmd where
  "dropTable s =
     (case directus_comments s of
        None \<Rightarrow> (Some NoSuchTable, sent DropTable s)
      | Some rows \<Rightarrow> (None, sent DropTable (s\<lparr>directus_comments := None\<rparr>)))"

text \<open>
  \<open>select(...).from('directus_activity').whereNotNull('comment').orderBy('id')\<close>
\<close>

definition select_activity_comments :: "db \<Rightarrow> ActivityRecord list" where
  "select_activity_comments s =
     sort_key act_id (filter (\<lambda>r. act_comment r \<noteq> None) (directus_activity s))"

text \<open>
  \<open>trx('directus_comments').insert({...})\<close>: the row is stored when the table exists,
  the primary key is new, the columns declared \<open>notNullable\<close> are given and both
  foreign keys have their target. \<open>date_updated\<close> takes its default, \<open>user_updated\<close>
  stays null.
\<close>

definition insert_comment ::
  "env \<Rightarrow> uuid \<Rightarrow> string \<Rightarrow> string \<Rightarrow> string option \<Rightarrow> uuid option \<Rightarrow> timestamp option \<Rightarrow> cmd"
where
  "insert_comment e i col itm txt usr ts s =
     (let s' = sent (InsertComment i) s in
      case directus_comments s of
        None \<Rightarrow> (Some NoSuchTable, s')
      | Some rows \<Rightarrow>
          if i \<in> set (map c_id rows) then (Some UniqueViolation, s')
          else if txt = None then (Some NotNullViolation, s')
          else if col \<notin> directus_collections s then (Some ForeignKeyViolation, s')
          else if (case usr of None \<Rightarrow> False | Some u \<Rightarrow> u \<notin> directus_users s)
            then (Some ForeignKeyViolation, s')
          else (None, s'\<lparr>directus_comments := Some (rows @
                  [\<lparr>c_id = i, c_collection = col, c_item = itm, c_comment = txt,
                    c_date_created = ts, c_date_updated = Some (now e),
                    c_user_created = usr, c_user_updated = None\<rparr>])\<rparr>))"

text \<open>
  \<open>knex('directus_activity').update({...}).where('id', '=', i)\<close>: every row with the
  identifier is rewritten by \<open>f\<close>, in place; the statement is rejected as a whole when a
  rewritten row breaks a constraint of the table.
\<close>

definition update_activity :: "env \<Rightarrow> nat \<Rightarrow> (ActivityRecord \<Rightarrow> ActivityRecord) \<Rightarrow> cmd" where
  "update_activity e i f s =
     (let s' = sent (UpdateActivity i) s in
      if list_all (\<lambda>r. if act_id r = i then activity_ok e (f r) else True) (directus_activity s)
      then (None, s'\<lparr>directus_activity :=
                        map (\<lambda>r. if act_id r = i then f r else r) (directus_activity s)\<rparr>)
      else (Some ConstraintViolation, s'))"

text \<open>
  Modelled from the spec: \<open>directus_activity.id\<close> is "unique identifier, immutable once
  created", assigned by the database on insert; the declaration of the column is not
  part of the sources at hand. Here the database assigns one more than the largest
  identifier in the table.
\<close>

definition next_id :: "ActivityRecord list \<Rightarrow> nat" where
  "next_id rows = Suc (fold max (map act_id rows) 0)"

text \<open>\<open>knex('directus_activity').insert({...})\<close>, the row given but for its identifier.\<close>

definition insert_activity :: "env \<Rightarrow> (nat \<Rightarrow> ActivityRecord) \<Rightarrow> cmd" where
  "insert_activity e mk s =
     (let s' = sent InsertActivity s; r = mk (next_id (directus_activity s)) in
      if activity_ok e r
      then (None, s'\<lparr>directus_activity := directus_activity s @ [r]\<rparr>)
      else (Some ConstraintViolation, s'))"

text \<open>
  \<open>knex.transaction(async (trx) => {...})\<close>: the statements of the body are committed
  together when the body returns, and undone together when it throws; the error is
  thrown on. Only the tables are restored.
\<close>

definition transaction :: "cmd \<Rightarrow> cmd" where
  "transaction body s =
     (case body (sent Begin s) of
        (None, s') \<Rightarrow> (None, sent Commit s')
      | (Some err, s') \<Rightarrow>
          (Some err, sent Rollback (s'\<lparr>directus_activity := directus_activity s,
                                       directus_comments := directus_comments s\<rparr>)))"

text \<open>\<open>for (const x of xs) { await f(x) }\<close>: the first error ends the loop.\<close>

fun for_each :: "('a \<Rightarrow> cmd) \<Rightarrow> 'a list \<Rightarrow> cmd" where
  "for_each f [] s = (None, s)"
| "for_each f (x # xs) s =
     (case f x s of
        (Some err, s') \<Rightarrow> (Some err, s')
      | (None, s') \<Rightarrow> for_each f xs s')"

text \<open>
  Modelled from the spec: \<open>processChunk\<close> of the package \<open>@directus/utils\<close> is not part
  of the sources at hand. The spec: it "accepts an ordered sequence of records, a chunk
  size, and an asynchronous per-chunk callback; invokes the callback once per chunk in
  order, awaiting completion before proceeding to the next chunk", the chunks being
  "fixed-size groups". \<open>chunks\<close> is the list of the chunks formed. The spec says nothing
  about a chunk size of 0 (no chunk is formed here); the migration passes 100.
\<close>

fun chunks :: "nat \<Rightarrow> 'a list \<Rightarrow> 'a list list" where
  "chunks n xs = (if n = 0 \<or> xs = [] then [] else take n xs # chunks n (drop n xs))"

declare chunks.simps [simp del]

definition processChunk :: "'a list \<Rightarrow> nat \<Rightarrow> ('a list \<Rightarrow> cmd) \<Rightarrow> cmd" where
  "processChunk arr chunkSize callback = for_each callback (chunks chunkSize arr)"

section \<open>The migration\<close>

text \<open>The body of the transaction of \<open>up\<close>, for one selected row \<open>comment\<close>.\<close>

definition up_row :: "env \<Rightarrow> ActivityRecord \<Rightarrow> cmd" where
  "up_row e comment s =
     (let newCommentId = randomUUID e (uuid_calls s);
          s1 = s\<lparr>uuid_calls := Suc (uuid_calls s)\<rparr>
      in case insert_comment e newCommentId (act_collection comment) (act_item comment)
                (act_comment comment) (act_user comment) (act_timestamp comment) s1 of
           (Some err, s2) \<Rightarrow> (Some err, s2)
         | (None, s2) \<Rightarrow>
             update_activity e (act_id comment)
               (\<lambda>r. r\<lparr>act_action := CREATE, act_collection := ''directus_comments'',
                       act_item := newCommentId, act_comment := None\<rparr>) s2)"

text \<open>
  \<open>up\<close>: create the table, select the commented rows in ascending order of \<open>id\<close>,
  and migrate them in chunks of 100, each row in a transaction of its own. An error
  leaves the loops and \<open>up\<close>.
\<close>

definition up_chunk :: "env \<Rightarrow> ActivityRecord list \<Rightarrow> cmd" where
  "up_chunk e commentChunk = for_each (\<lambda>comment. transaction (up_row e comment)) commentChunk"

definition up :: "env \<Rightarrow> cmd" where
  "up e s =
     (case createTable s of
        (Some err, s1) \<Rightarrow> (Some err, s1)
      | (None, s1) \<Rightarrow>
          (let comments = select_activity_comments s1
           in processChunk comments 100 (up_chunk e) (sent SelectActivityComments s1)))"

text \<open>
  The two searches of \<open>down\<close>, each \<open>select('id') ... limit(1)\<close> with no order given:
  the first matching row in storage order.
\<close>

definition migratedRecords :: "CommentRecord \<Rightarrow> db \<Rightarrow> ActivityRecord option" where
  "migratedRecords comment s =
     find (\<lambda>r. act_collection r = ''directus_comments'' \<and> act_item r = c_id comment
                \<and> act_action r = CREATE) (directus_activity s)"

definition unmigratedRecords :: "CommentRecord \<Rightarrow> db \<Rightarrow> ActivityRecord option" where
  "unmigratedRecords comment s =
     find (\<lambda>r. act_collection r = c_collection comment \<and> act_item r = c_item comment
                \<and> act_action r = COMMENT) (directus_activity s)"

text \<open>The body of the loop of \<open>down\<close>, for one row \<open>comment\<close> of \<open>directus_comments\<close>.\<close>

definition down_row :: "env \<Rightarrow> CommentRecord \<Rightarrow> cmd" where
  "down_row e comment s =
     (let s1 = sent (SelectMigrated (c_id comment)) s in
      case migratedRecords comment s of
        Some m \<Rightarrow>
          update_activity e (act_id m)
            (\<lambda>r. r\<lparr>act_action := COMMENT, act_collection := c_collection comment,
                    act_item := c_item comment, act_comment := c_comment comment\<rparr>) s1
      | None \<Rightarrow>
          (let s2 = sent (SelectUnmigrated (c_collection comment) (c_item comment)) s1 in
           case unmigratedRecords comment s of
             Some u \<Rightarrow>
               update_activity e (act_id u) (\<lambda>r. r\<lparr>act_comment := c_comment comment\<rparr>) s2
           | None \<Rightarrow>
               insert_activity e
                 (\<lambda>i. \<lparr>act_id = i, act_action = COMMENT,
                        act_collection = c_collection comment, act_item = c_item comment,
                        act_comment = c_comment comment, act_user = c_user_created comment,
                        act_timestamp = c_date_created comment\<rparr>) s2))"

text \<open>
  \<open>down\<close>: select the rows of \<open>directus_comments\<close> (no order is given: storage order;
  the statement fails when the table does not exist), reconcile them in chunks of 100
  with no transaction, and then drop the table.
\<close>

definition down_chunk :: "env \<Rightarrow> CommentRecord list \<Rightarrow> cmd" where
  "down_chunk e commentChunk = for_each (down_row e) commentChunk"

definition down :: "env \<Rightarrow> cmd" where
  "down e s =
     (case directus_comments s of
        None \<Rightarrow> (Some NoSuchTable, sent SelectComments s)
      | Some comments \<Rightarrow>
          (case processChunk comments 100 (down_chunk e) (sent SelectComments s) of
             (Some err, s') \<Rightarrow> (Some err, s')
           | (None, s') \<Rightarrow> dropTable s'))"

section \<open>Vocabulary of the statements\<close>

subsection \<open>Rows and conditions\<close>

text \<open>
  \<open>cross_reference u r\<close> is the row \<open>up\<close> leaves in the activity log for a migrated
  row \<open>r\<close>, \<open>new_comment e r u\<close> the row it stores in \<open>directus_comments\<close>;
  \<open>restored c r\<close> is what \<open>down\<close> makes of a cross-reference \<open>r\<close> to the comment
  \<open>c\<close>, and \<open>fabricated c i\<close> the row it inserts when it finds nothing to repair.
  \<open>refers_to u\<close> and \<open>shadows c\<close> are the conditions of the two searches of \<open>down\<close>.
  \<open>by_id i f\<close> is an update by identifier, and \<open>accepted e r s\<close> says that the
  database accepts both statements of the transaction of \<open>up\<close> for the row \<open>r\<close>.
\<close>

definition cross_reference :: "uuid \<Rightarrow> ActivityRecord \<Rightarrow> ActivityRecord" where
  "cross_reference u r =
     r\<lparr>act_action := CREATE, act_collection := ''directus_comments'', act_item := u,
       act_comment := None\<rparr>"

definition new_comment :: "env \<Rightarrow> ActivityRecord \<Rightarrow> uuid \<Rightarrow> CommentRecord" where
  "new_comment e r u =
     \<lparr>c_id = u, c_collection = act_collection r, c_item = act_item r,
      c_comment = act_comment r, c_date_created = act_timestamp r,
      c_date_updated = Some (now e), c_user_created = act_user r, c_user_updated = None\<rparr>"

definition restored :: "CommentRecord \<Rightarrow> ActivityRecord \<Rightarrow> ActivityRecord" where
  "restored c r =
     r\<lparr>act_action := COMMENT, act_collection := c_collection c, act_item := c_item c,
       act_comment := c_comment c\<rparr>"

definition fabricated :: "CommentRecord \<Rightarrow> nat \<Rightarrow> ActivityRecord" where
  "fabricated c i =
     \<lparr>act_id = i, act_action = COMMENT, act_collection = c_collection c,
      act_item = c_item c, act_comment = c_comment c, act_user = c_user_created c,
      act_timestamp = c_date_created c\<rparr>"

definition refers_to :: "uuid \<Rightarrow> ActivityRecord \<Rightarrow> bool" where
  "refers_to u r \<longleftrightarrow>
     act_collection r = ''directus_comments'' \<and> act_item r = u \<and> act_action r = CREATE"

definition shadows :: "CommentRecord \<Rightarrow> ActivityRecord \<Rightarrow> bool" where
  "shadows c r \<longleftrightarrow>
     act_collection r = c_collection c \<and> act_item r = c_item c \<and> act_action r = COMMENT"

definition by_id :: "nat \<Rightarrow> (ActivityRecord \<Rightarrow> ActivityRecord) \<Rightarrow> ActivityRecord list \<Rightarrow> ActivityRecord list" where
  "by_id i f rows = map (\<lambda>r. if act_id r = i then f r else r) rows"

definition accepted :: "env \<Rightarrow> ActivityRecord \<Rightarrow> db \<Rightarrow> bool" where
  "accepted e r s \<longleftrightarrow>
     (case directus_comments s of
        None \<Rightarrow> False
      | Some rows \<Rightarrow>
          randomUUID e (uuid_calls s) \<notin> set (map c_id rows) \<and> act_comment r \<noteq> None \<and>
          act_collection r \<in> directus_collections s \<and>
          (case act_user r of None \<Rightarrow> True | Some u \<Rightarrow> u \<in> directus_users s) \<and>
          list_all (\<lambda>x. if act_id x = act_id r
                         then activity_ok e (cross_reference (randomUUID e (uuid_calls s)) x)
                         else True) (directus_activity s))"

subsection \<open>Runs\<close>

text \<open>
  \<open>drawn e k n\<close> are the identifiers the calls \<open>k, ..., k + n - 1\<close> of
  \<open>randomUUID()\<close> return. \<open>up_rows\<close> and \<open>down_rows\<close> are the loops of \<open>up\<close> and
  \<open>down\<close> over all rows, without the chunks. \<open>pairs e s\<close> pairs each row \<open>up\<close>
  selects with the identifier drawn for it, \<open>pair_of\<close> looks a row up by its activity
  identifier, and \<open>marked ps\<close> (for all pairs: \<open>forward e s\<close>) is the effect on one
  activity row of migrating the pairs \<open>ps\<close>. \<open>txn_block\<close> lists the statements of one
  committed transaction.
\<close>

definition drawn :: "env \<Rightarrow> nat \<Rightarrow> nat \<Rightarrow> uuid list" where
  "drawn e k n = map (randomUUID e) [k..<k + n]"

definition up_rows :: "env \<Rightarrow> ActivityRecord list \<Rightarrow> cmd" where
  "up_rows e rows = for_each (\<lambda>comment. transaction (up_row e comment)) rows"

definition down_rows :: "env \<Rightarrow> CommentRecord list \<Rightarrow> cmd" where
  "down_rows e comments = for_each (down_row e) comments"

definition pairs :: "env \<Rightarrow> db \<Rightarrow> (ActivityRecord \<times> uuid) list" where
  "pairs e s =
     zip (select_activity_comments s)
       (drawn e (uuid_calls s) (length (select_activity_comments s)))"

definition pair_of :: "(ActivityRecord \<times> uuid) list \<Rightarrow> ActivityRecord \<Rightarrow> (ActivityRecord \<times> uuid) option" where
  "pair_of ps x = find (\<lambda>(r, u). act_id r = act_id x) ps"

definition forward :: "env \<Rightarrow> db \<Rightarrow> ActivityRecord \<Rightarrow> ActivityRecord" where
  "forward e s x =
     (case pair_of (pairs e s) x of Some (r, u) \<Rightarrow> cross_reference u x | None \<Rightarrow> x)"

definition marked :: "(ActivityRecord \<times> uuid) list \<Rightarrow> ActivityRecord \<Rightarrow> ActivityRecord" where
  "marked ps x = (case pair_of ps x of Some (r, u) \<Rightarrow> cross_reference u x | None \<Rightarrow> x)"

definition txn_block :: "ActivityRecord \<Rightarrow> uuid \<Rightarrow> stmt list" where
  "txn_block r u = [Begin, InsertComment u, UpdateActivity (act_id r), Commit]"

subsection \<open>Reading the journal\<close>

text \<open>
  The writing statements of a journal, the comments whose reconciliation \<open>down\<close> has
  started, and the identifiers of the activity rows updated, each in the order sent.
\<close>

definition writes :: "stmt list \<Rightarrow> stmt list" where
  "writes js =
     filter (\<lambda>q. case q of InsertComment u \<Rightarrow> True | UpdateActivity i \<Rightarrow> True
                  | InsertActivity \<Rightarrow> True | _ \<Rightarrow> False) js"

fun reconciled :: "stmt list \<Rightarrow> uuid list" where
  "reconciled [] = []"
| "reconciled (SelectMigrated u # js) = u # reconciled js"
| "reconciled (q # js) = reconciled js"

fun updated :: "stmt list \<Rightarrow> nat list" where
  "updated [] = []"
| "updated (UpdateActivity i # js) = i # updated js"
| "updated (q # js) = updated js"

subsection \<open>Relations between two databases\<close>

text \<open>
  \<open>untouched I s s'\<close>: the activity rows keep their places and identifiers, and a row
  whose identifier is not in \<open>I\<close> is the same in \<open>s'\<close>. \<open>copies_only\<close>: the rows added
  to \<open>directus_comments\<close> are copies of the rows given. \<open>updates_within I\<close>: the
  updates sent carry identifiers of \<open>I\<close>. \<open>marks_only\<close>: every activity row is as it
  was or a cross-reference made of it. \<open>reordered s t\<close>: \<open>t\<close> is \<open>s\<close> with the activity
  rows stored in another order.
\<close>

definition untouched :: "nat set \<Rightarrow> db \<Rightarrow> db \<Rightarrow> bool" where
  "untouched I s s' \<longleftrightarrow>
     map act_id (directus_activity s') = map act_id (directus_activity s) \<and>
     (\<forall>i<length (directus_activity s). act_id (directus_activity s ! i) \<notin> I \<longrightarrow>
        directus_activity s' ! i = directus_activity s ! i)"

definition copies_only :: "env \<Rightarrow> ActivityRecord list \<Rightarrow> db \<Rightarrow> db \<Rightarrow> bool" where
  "copies_only e rows s s' \<longleftrightarrow>
     (\<exists>new. directus_comments s' = map_option (\<lambda>cs. cs @ new) (directus_comments s) \<and>
            (\<forall>c\<in>set new. \<exists>r\<in>set rows. \<exists>u. c = new_comment e r u))"

definition updates_within :: "nat set \<Rightarrow> db \<Rightarrow> db \<Rightarrow> bool" where
  "updates_within I s s' \<longleftrightarrow>
     (\<exists>evs. journal s' = journal s @ evs \<and> (\<forall>i. UpdateActivity i \<in> set evs \<longrightarrow> i \<in> I))"

definition marks_only :: "db \<Rightarrow> db \<Rightarrow> bool" where
  "marks_only s s' \<longleftrightarrow>
     list_all2 (\<lambda>x y. y = x \<or> (\<exists>u. y = cross_reference u x))
       (directus_activity s) (directus_activity s')"

definition reordered :: "db \<Rightarrow> db \<Rightarrow> bool" where
  "reordered s t \<longleftrightarrow>
     mset (directus_activity t) = mset (directus_activity s) \<and>
     t = s\<lparr>directus_activity := directus_activity t\<rparr>"

subsection \<open>Example databases\<close>

text \<open>
  The databases and environments the statements are instantiated with: the scenario of
  the spec (activity row 5, a comment \<open>nice\<close> on item 42 of \<open>articles\<close>), an
  environment whose activity table rejects long items, one with a width on each of
  \<open>collection\<close> (64) and \<open>item\<close> (255), and one that rejects a comment text, rows
  stored out of order, 250 commented rows, and comment rows with and without
  a cross-reference or a shadow in the activity log.
\<close>

definition demo_env :: env where
  "demo_env = \<lparr>randomUUID = (\<lambda>n. ''uuid-'' @ replicate n CHR ''x''), now = 1700000000,
               activity_ok = (\<lambda>r. length (act_collection r) \<le> 64)\<rparr>"

definition strict_env :: env where
  "strict_env = demo_env\<lparr>activity_ok := (\<lambda>r. length (act_item r) \<le> 5)\<rparr>"

definition varchar_env :: env where
  "varchar_env =
     demo_env\<lparr>activity_ok := (\<lambda>r. length (act_collection r) \<le> 64 \<and> length (act_item r) \<le> 255)\<rparr>"

definition broken_env :: env where
  "broken_env = demo_env\<lparr>activity_ok := (\<lambda>r. act_comment r \<noteq> Some ''second'')\<rparr>"

definition demo_db :: db where
  "demo_db =
     \<lparr>directus_collections = {''articles''}, directus_users = {''u1''},
      directus_activity =
        [\<lparr>act_id = 5, act_action = COMMENT, act_collection = ''articles'', act_item = ''42'',
          act_comment = Some ''nice'', act_user = Some ''u1'', act_timestamp = Some 1600000000\<rparr>,
         \<lparr>act_id = 2, act_action = CREATE, act_collection = ''articles'', act_item = ''42'',
          act_comment = None, act_user = Some ''u1'', act_timestamp = Some 1500000000\<rparr>,
         \<lparr>act_id = 3, act_action = COMMENT, act_collection = ''articles'', act_item = ''7'',
          act_comment = Some ''first'', act_user = None, act_timestamp = Some 1550000000\<rparr>],
      directus_comments = None, journal = [], uuid_calls = 0\<rparr>"

definition demo_row :: "nat \<Rightarrow> string \<Rightarrow> ActivityRecord" where
  "demo_row i txt =
     \<lparr>act_id = i, act_action = COMMENT, act_collection = ''articles'', act_item = ''42'',
      act_comment = Some txt, act_user = Some ''u1'', act_timestamp = Some 1600000000\<rparr>"

definition shuffled_db :: db where
  "shuffled_db =
     \<lparr>directus_collections = {''articles''}, directus_users = {''u1''},
      directus_activity = [demo_row 3 ''c'', demo_row 1 ''a'', demo_row 2 ''b''],
      directus_comments = None, journal = [], uuid_calls = 0\<rparr>"


definition demo_comment :: CommentRecord where
  "demo_comment =
     \<lparr>c_id = ''uuid-x'', c_collection = ''articles'', c_item = ''42'',
      c_comment = Some ''nice'', c_date_created = Some 1600000000,
      c_date_updated = Some 1700000000, c_user_created = Some ''u1'',
      c_user_updated = None\<rparr>"

definition demo_reference :: ActivityRecord where
  "demo_reference =
     \<lparr>act_id = 5, act_action = CREATE, act_collection = ''directus_comments'',
      act_item = ''uuid-x'', act_comment = None, act_user = Some ''u1'',
      act_timestamp = Some 1600000000\<rparr>"

definition demo_shadow :: ActivityRecord where
  "demo_shadow =
     \<lparr>act_id = 8, act_action = COMMENT, act_collection = ''articles'', act_item = ''42'',
      act_comment = Some ''old text'', act_user = Some ''u2'',
      act_timestamp = Some 1650000000\<rparr>"

definition demo_other :: ActivityRecord where
  "demo_other =
     \<lparr>act_id = 2, act_action = CREATE, act_collection = ''articles'', act_item = ''42'',
      act_comment = None, act_user = Some ''u1'', act_timestamp = Some 1500000000\<rparr>"

definition demo_with :: "ActivityRecord list \<Rightarrow> CommentRecord list \<Rightarrow> db" where
  "demo_with rows comments =
     \<lparr>directus_collections = {''articles''}, directus_users = {''u1'', ''u2''},
      directus_activity = rows, directus_comments = Some comments, journal = [],
      uuid_calls = 0\<rparr>"

definition twin_first :: CommentRecord where
  "twin_first =
     \<lparr>c_id = ''uuid-a'', c_collection = ''articles'', c_item = ''42'',
      c_comment = Some ''first'', c_date_created = Some 1710000000,
      c_date_updated = Some 1710000000, c_user_created = Some ''u1'',
      c_user_updated = None\<rparr>"

definition twin_second :: CommentRecord where
  "twin_second =
     \<lparr>c_id = ''uuid-b'', c_collection = ''articles'', c_item = ''42'',
      c_comment = Some ''second'', c_date_created = Some 1720000000,
      c_date_updated = Some 1720000000, c_user_created = Some ''u2'',
      c_user_updated = None\<rparr>"

section \<open>Loops and chunks\<close>

lemma for_each_append:
  "for_each f (xs @ ys) s =
     (case for_each f xs s of (Some err, s') \<Rightarrow> (Some err, s') | (None, s') \<Rightarrow> for_each f ys s')"
  by (induction xs arbitrary: s) (auto split: prod.splits option.splits)

lemma concat_chunks: "0 < n \<Longrightarrow> concat (chunks n xs) = xs"
proof (induction n xs rule: chunks.induct)
  case (1 n xs)
  then show ?case by (subst chunks.simps) auto
qed

lemma for_each_chunks:
  "0 < n \<Longrightarrow> for_each (for_each f) (chunks n xs) s = for_each f xs s"
proof (induction n xs arbitrary: s rule: chunks.induct)
  case (1 n xs)
  show ?case
  proof (cases "xs = []")
    case True
    then show ?thesis by (simp add: chunks.simps)
  next
    case False
    have "for_each f xs s = for_each f (take n xs @ drop n xs) s" by simp
    also have "\<dots> = (case for_each f (take n xs) s of (Some err, s') \<Rightarrow> (Some err, s')
                      | (None, s') \<Rightarrow> for_each f (drop n xs) s')"
      by (rule for_each_append)
    finally have split: "for_each f xs s = (case for_each f (take n xs) s of (Some err, s') \<Rightarrow> (Some err, s')
                      | (None, s') \<Rightarrow> for_each f (drop n xs) s')" .
    from False "1.prems" have c: "chunks n xs = take n xs # chunks n (drop n xs)"
      by (subst chunks.simps) simp
    show ?thesis
      using "1.IH" False "1.prems" unfolding c split
      by (auto split: prod.splits option.splits)
  qed
qed

lemma for_each_rel:
  assumes refl: "\<And>s. R s s"
      and trans: "\<And>a b c. R a b \<Longrightarrow> R b c \<Longrightarrow> R a c"
      and step: "\<And>x s. x \<in> set xs \<Longrightarrow> R s (snd (f x s))"
  shows "R s (snd (for_each f xs s))"
  using step
proof (induction xs arbitrary: s)
  case Nil
  then show ?case by (simp add: refl)
next
  case (Cons x xs)
  have 1: "R s (snd (f x s))" using Cons.prems by simp
  show ?case
  proof (cases "f x s")
    case (Pair r s')
    show ?thesis
    proof (cases r)
      case None
      have "R s' (snd (for_each f xs s'))" using Cons.IH Cons.prems by simp
      with 1 Pair None show ?thesis by (auto intro: trans)
    next
      case (Some a)
      with 1 Pair show ?thesis by simp
    qed
  qed
qed


lemma for_each_stops:
  assumes "j < length xs"
      and "for_each f (take j xs) s = (None, t)"
      and "f (xs ! j) t = (Some err, t')"
  shows "for_each f xs s = (Some err, t')"
proof -
  have "xs = take j xs @ xs ! j # drop (Suc j) xs"
    using assms(1) by (rule id_take_nth_drop)
  then have "for_each f xs s = for_each f (take j xs @ xs ! j # drop (Suc j) xs) s"
    by simp
  also have "\<dots> = (Some err, t')"
    using assms(2,3) by (simp add: for_each_append)
  finally show ?thesis .
qed

section \<open>One transaction of the forward migration\<close>

lemma up_row_txn_accepted:
  "accepted e r s \<Longrightarrow> transaction (up_row e r) s =
     ((None, s\<lparr>directus_activity :=
                        by_id (act_id r) (cross_reference (randomUUID e (uuid_calls s))) (directus_activity s),
                     directus_comments := Some (the (directus_comments s) @ [new_comment e r (randomUUID e (uuid_calls s))]),
                     journal := journal s @ [Begin, InsertComment (randomUUID e (uuid_calls s)),
                                   UpdateActivity (act_id r), Commit],
                     uuid_calls := Suc (uuid_calls s)\<rparr>))"
  by (auto simp: transaction_def up_row_def insert_comment_def update_activity_def sent_def
        accepted_def by_id_def cross_reference_def new_comment_def Let_def list_all_iff
        split: option.splits prod.splits)

lemma up_row_txn_fail:
  assumes "transaction (up_row e r) s = (Some err, s')"
  shows "directus_activity s' = directus_activity s \<and> directus_comments s' = directus_comments s
         \<and> directus_collections s' = directus_collections s \<and> directus_users s' = directus_users s
         \<and> uuid_calls s' = Suc (uuid_calls s)"
  using assms
  by (auto simp: transaction_def up_row_def insert_comment_def update_activity_def sent_def
        Let_def split: option.splits prod.splits if_splits)

lemma up_row_txn_ok:
  assumes "transaction (up_row e r) s = (None, s')"
  shows "accepted e r s"
  using assms
  by (auto simp: transaction_def up_row_def insert_comment_def update_activity_def sent_def
        accepted_def cross_reference_def Let_def split: option.splits prod.splits if_splits)

lemma drawn_0 [simp]: "drawn e k 0 = []"
  by (simp add: drawn_def)

lemma drawn_Suc: "drawn e k (Suc n) = randomUUID e k # drawn e (Suc k) n"
proof -
  have "[k..<k + Suc n] = k # [Suc k..<Suc k + n]"
    by (metis add_Suc_right add_Suc less_add_Suc1 upt_conv_Cons)
  then show ?thesis by (simp add: drawn_def)
qed

lemma length_drawn [simp]: "length (drawn e k n) = n"
  by (simp add: drawn_def)

lemma up_rows_Nil [simp]: "up_rows e [] s = (None, s)"
  by (simp add: up_rows_def)

lemma up_rows_Cons:
  "up_rows e (r # rows) s =
     (case transaction (up_row e r) s of
        (Some err, s') \<Rightarrow> (Some err, s')
      | (None, s') \<Rightarrow> up_rows e rows s')"
  by (simp add: up_rows_def split: prod.splits option.splits)

lemma up_rows_success:
  assumes "up_rows e rows s = (None, s')" and "directus_comments s = Some cs"
  shows "s' = s\<lparr>directus_activity :=
                    fold (\<lambda>(r, u). by_id (act_id r) (cross_reference u))
                      (zip rows (drawn e (uuid_calls s) (length rows))) (directus_activity s),
                 directus_comments :=
                    Some (cs @ map2 (new_comment e) rows (drawn e (uuid_calls s) (length rows))),
                 journal := journal s @
                    concat (map2 txn_block rows (drawn e (uuid_calls s) (length rows))),
                 uuid_calls := uuid_calls s + length rows\<rparr>"
  using assms
proof (induction rows arbitrary: s cs)
  case Nil
  then show ?case by simp
next
  case (Cons r rows)
  let ?u = "randomUUID e (uuid_calls s)"
  from Cons.prems(1) obtain s1 where
    1: "transaction (up_row e r) s = (None, s1)" and 2: "up_rows e rows s1 = (None, s')"
    by (auto simp: up_rows_Cons split: prod.splits option.splits)
  have acc: "accepted e r s" using 1 by (rule up_row_txn_ok)
  have s1: "s1 = s\<lparr>directus_activity := by_id (act_id r) (cross_reference ?u) (directus_activity s),
                     directus_comments := Some (cs @ [new_comment e r ?u]),
                     journal := journal s @ txn_block r ?u,
                     uuid_calls := Suc (uuid_calls s)\<rparr>"
    using up_row_txn_accepted [OF acc] 1 Cons.prems(2) by (simp add: txn_block_def)
  have c1: "directus_comments s1 = Some (cs @ [new_comment e r ?u])"
    by (simp add: s1)
  show ?case
    using Cons.IH [OF 2 c1] by (simp add: s1 drawn_Suc)
qed

section \<open>The forward migration as one loop\<close>

lemma select_sent [simp]:
  "select_activity_comments (sent q s) = select_activity_comments s"
  by (simp add: select_activity_comments_def sent_def)

lemma up_rows_chunked:
  "processChunk rows 100 (up_chunk e) s = up_rows e rows s"
proof -
  have "up_chunk e = for_each (\<lambda>comment. transaction (up_row e comment))"
    by (rule ext) (simp add: up_chunk_def)
  then show ?thesis
    by (simp add: processChunk_def up_rows_def for_each_chunks)
qed

lemma up_table_exists:
  "directus_comments s = Some cs \<Longrightarrow> up e s = (Some TableExists, sent CreateTable s)"
  by (simp add: up_def createTable_def)

lemma up_unfold:
  "directus_comments s = None \<Longrightarrow>
   up e s = up_rows e (select_activity_comments s)
              (s\<lparr>directus_comments := Some [],
                 journal := journal s @ [CreateTable, SelectActivityComments]\<rparr>)"
  by (simp add: up_def createTable_def up_rows_chunked sent_def select_activity_comments_def)

lemma act_id_cross_reference [simp]: "act_id (cross_reference u r) = act_id r"
  by (simp add: cross_reference_def)

lemma up_rows_accepts:
  assumes "directus_comments s = Some cs"
      and "distinct (map act_id rows)"
      and "\<forall>r\<in>set rows. \<forall>y\<in>set (directus_activity s). act_id y = act_id r \<longrightarrow> y = r"
      and "\<forall>r\<in>set rows. act_comment r \<noteq> None \<and> act_collection r \<in> directus_collections s \<and>
             (case act_user r of None \<Rightarrow> True | Some u \<Rightarrow> u \<in> directus_users s)"
      and "distinct (map c_id cs @ drawn e (uuid_calls s) (length rows))"
      and "\<forall>(r, u)\<in>set (zip rows (drawn e (uuid_calls s) (length rows))).
             activity_ok e (cross_reference u r)"
  shows "fst (up_rows e rows s) = None"
  using assms
proof (induction rows arbitrary: s cs)
  case Nil
  then show ?case by simp
next
  case (Cons r rows)
  let ?u = "randomUUID e (uuid_calls s)"
  let ?s1 = "s\<lparr>directus_activity := by_id (act_id r) (cross_reference ?u) (directus_activity s),
                directus_comments := Some (the (directus_comments s) @ [new_comment e r ?u]),
                journal := journal s @ [Begin, InsertComment ?u, UpdateActivity (act_id r), Commit],
                uuid_calls := Suc (uuid_calls s)\<rparr>"
  have fresh: "?u \<notin> set (map c_id cs)"
    using Cons.prems(5) by (auto simp: drawn_Suc)
  have head: "activity_ok e (cross_reference ?u r)"
    using Cons.prems(6) by (simp add: drawn_Suc)
  have ok: "list_all (\<lambda>x. if act_id x = act_id r then activity_ok e (cross_reference ?u x) else True)
              (directus_activity s)"
    using Cons.prems(3) head by (auto simp: list_all_iff)
  have acc: "accepted e r s"
    using Cons.prems(1,4) fresh ok by (simp add: accepted_def)
  have step: "transaction (up_row e r) s = (None, ?s1)"
    by (rule up_row_txn_accepted [OF acc])
  have c1: "directus_comments ?s1 = Some (cs @ [new_comment e r ?u])"
    using Cons.prems(1) by simp
  have d1: "distinct (map act_id rows)" using Cons.prems(2) by simp
  have u1: "\<forall>r'\<in>set rows. \<forall>y\<in>set (directus_activity ?s1). act_id y = act_id r' \<longrightarrow> y = r'"
  proof (intro ballI impI)
    fix r' y
    assume r': "r' \<in> set rows" and y: "y \<in> set (directus_activity ?s1)"
       and eq: "act_id y = act_id r'"
    from y obtain x where x: "x \<in> set (directus_activity s)"
      and yx: "y = (if act_id x = act_id r then cross_reference ?u x else x)"
      by (auto simp: by_id_def)
    have ne: "act_id r' \<noteq> act_id r" using Cons.prems(2) r' by (auto simp: image_iff)
    from yx eq ne have "y = x" by (auto split: if_splits)
    with x eq r' Cons.prems(3) show "y = r'" by auto
  qed
  have f1: "\<forall>r\<in>set rows. act_comment r \<noteq> None \<and> act_collection r \<in> directus_collections ?s1 \<and>
             (case act_user r of None \<Rightarrow> True | Some u \<Rightarrow> u \<in> directus_users ?s1)"
    using Cons.prems(4) by (simp cong: option.case_cong)
  have g1: "distinct (map c_id (cs @ [new_comment e r ?u]) @ drawn e (uuid_calls ?s1) (length rows))"
    using Cons.prems(5) by (auto simp: drawn_Suc new_comment_def)
  have h1: "\<forall>(r, u)\<in>set (zip rows (drawn e (uuid_calls ?s1) (length rows))).
              activity_ok e (cross_reference u r)"
    using Cons.prems(6) by (simp add: drawn_Suc)
  have "fst (up_rows e rows ?s1) = None"
    by (rule Cons.IH [OF c1 d1 u1 f1 g1 h1])
  then show ?case
    by (simp add: up_rows_Cons step)
qed

lemma fold_by_id:
  assumes "distinct (map (\<lambda>p. act_id (fst p)) ps)"
      and "\<And>r u x. act_id (F r u x) = act_id x"
  shows "fold (\<lambda>(r, u). by_id (act_id r) (F r u)) ps rows =
         map (\<lambda>x. case find (\<lambda>(r, u). act_id r = act_id x) ps of
                     Some (r, u) \<Rightarrow> F r u x | None \<Rightarrow> x) rows"
  using assms(1)
proof (induction ps arbitrary: rows)
  case Nil
  then show ?case by simp
next
  case (Cons p ps)
  obtain r u where p: "p = (r, u)" by (cases p)
  have nf: "find (\<lambda>(r', u'). act_id r' = act_id r) ps = None"
    using Cons.prems p by (auto simp: find_None_iff image_iff)
  have "fold (\<lambda>(r, u). by_id (act_id r) (F r u)) (p # ps) rows =
        fold (\<lambda>(r, u). by_id (act_id r) (F r u)) ps (by_id (act_id r) (F r u) rows)"
    by (simp add: p)
  also have "\<dots> = map (\<lambda>x. case find (\<lambda>(r, u). act_id r = act_id x) ps of
                     Some (r, u) \<Rightarrow> F r u x | None \<Rightarrow> x) (by_id (act_id r) (F r u) rows)"
    using Cons.IH Cons.prems by simp
  also have "\<dots> = map (\<lambda>x. case find (\<lambda>(r, u). act_id r = act_id x) (p # ps) of
                     Some (r, u) \<Rightarrow> F r u x | None \<Rightarrow> x) rows"
    using nf by (auto simp: by_id_def p assms(2))
  finally show ?case .
qed

section \<open>The reverse migration as one loop\<close>

lemma down_rows_chunked:
  "processChunk comments 100 (down_chunk e) s = down_rows e comments s"
proof -
  have "down_chunk e = for_each (down_row e)"
    by (rule ext) (simp add: down_chunk_def)
  then show ?thesis
    by (simp add: processChunk_def down_rows_def for_each_chunks)
qed

lemma migratedRecords_find:
  "migratedRecords c s = find (refers_to (c_id c)) (directus_activity s)"
  by (simp add: migratedRecords_def refers_to_def [abs_def])

lemma unmigratedRecords_find:
  "unmigratedRecords c s = find (shadows c) (directus_activity s)"
  by (simp add: unmigratedRecords_def shadows_def [abs_def])

lemma update_activity_ok:
  "\<forall>x\<in>set (directus_activity s). act_id x = i \<longrightarrow> activity_ok e (f x) \<Longrightarrow>
   update_activity e i f s =
     (None, s\<lparr>directus_activity := by_id i f (directus_activity s),
              journal := journal s @ [UpdateActivity i]\<rparr>)"
  by (auto simp: update_activity_def sent_def by_id_def list_all_iff Let_def)

lemma down_row_migrated:
  assumes "migratedRecords c s = Some m"
  shows "down_row e c s =
         update_activity e (act_id m) (restored c) (s\<lparr>journal := journal s @ [SelectMigrated (c_id c)]\<rparr>)"
proof -
  have "restored c = (\<lambda>r. r\<lparr>act_action := COMMENT, act_collection := c_collection c,
                    act_item := c_item c, act_comment := c_comment c\<rparr>)"
    by (rule ext) (simp add: restored_def)
  then show ?thesis using assms by (simp add: down_row_def sent_def)
qed

lemma down_row_unmigrated:
  assumes "migratedRecords c s = None" and "unmigratedRecords c s = Some m"
  shows "down_row e c s =
         update_activity e (act_id m) (\<lambda>r. r\<lparr>act_comment := c_comment c\<rparr>)
           (s\<lparr>journal := journal s @ [SelectMigrated (c_id c),
                                       SelectUnmigrated (c_collection c) (c_item c)]\<rparr>)"
  using assms by (simp add: down_row_def sent_def)

lemma down_row_fabricate:
  assumes "migratedRecords c s = None" and "unmigratedRecords c s = None"
  shows "down_row e c s =
         insert_activity e (fabricated c)
           (s\<lparr>journal := journal s @ [SelectMigrated (c_id c),
                                       SelectUnmigrated (c_collection c) (c_item c)]\<rparr>)"
proof -
  have "fabricated c = (\<lambda>i. \<lparr>act_id = i, act_action = COMMENT,
                        act_collection = c_collection c, act_item = c_item c,
                        act_comment = c_comment c, act_user = c_user_created c,
                        act_timestamp = c_date_created c\<rparr>)"
    by (rule ext) (simp add: fabricated_def)
  then show ?thesis using assms by (simp add: down_row_def sent_def)
qed

lemma find_unique_id:
  assumes "\<exists>x\<in>set xs. P x" and "\<forall>x\<in>set xs. P x \<longrightarrow> act_id x = i"
  shows "\<exists>m. find P xs = Some m \<and> act_id m = i"
proof -
  from assms(1) obtain m where m: "find P xs = Some m"
    by (cases "find P xs") (auto simp: find_None_iff)
  then have "m \<in> set xs" "P m"
    by (auto simp: find_Some_iff)
  with assms(2) m show ?thesis by auto
qed

lemma act_id_restored [simp]: "act_id (restored c r) = act_id r"
  by (simp add: restored_def)

lemma down_rows_restore:
  assumes "distinct (map (\<lambda>p. act_id (fst p)) ps)"
      and "\<forall>(r, u)\<in>set ps. (\<exists>x\<in>set (directus_activity s). refers_to u x) \<and>
             (\<forall>x\<in>set (directus_activity s). refers_to u x \<longrightarrow> act_id x = act_id r)"
      and "\<forall>(r, u)\<in>set ps. \<forall>x\<in>set (directus_activity s). act_id x = act_id r \<longrightarrow>
             activity_ok e (restored (new_comment e r u) x)"
  shows "down_rows e (map (\<lambda>(r, u). new_comment e r u) ps) s =
         (None, s\<lparr>directus_activity :=
                     fold (\<lambda>(r, u). by_id (act_id r) (restored (new_comment e r u))) ps
                       (directus_activity s),
                  journal := journal s @
                     concat (map (\<lambda>(r, u). [SelectMigrated u, UpdateActivity (act_id r)]) ps)\<rparr>)"
  using assms
proof (induction ps arbitrary: s)
  case Nil
  then show ?case by (simp add: down_rows_def)
next
  case (Cons p ps)
  obtain r u where p: "p = (r, u)" by (cases p)
  let ?c = "new_comment e r u"
  let ?B = "directus_activity s"
  let ?s1 = "s\<lparr>directus_activity := by_id (act_id r) (restored ?c) ?B,
                journal := journal s @ [SelectMigrated u, UpdateActivity (act_id r)]\<rparr>"
  have cid: "c_id ?c = u" by (simp add: new_comment_def)
  obtain m where m: "migratedRecords ?c s = Some m" and mid: "act_id m = act_id r"
    using find_unique_id [of ?B "refers_to u" "act_id r"] Cons.prems(2)
    by (auto simp: p migratedRecords_find cid)
  have ok: "\<forall>x\<in>set (directus_activity (s\<lparr>journal := journal s @ [SelectMigrated (c_id ?c)]\<rparr>)).
              act_id x = act_id m \<longrightarrow> activity_ok e (restored ?c x)"
    using Cons.prems(3) by (simp add: p mid)
  have step: "down_row e ?c s = (None, ?s1)"
    unfolding down_row_migrated [OF m] update_activity_ok [OF ok]
    by (simp add: mid cid)
  have d1: "distinct (map (\<lambda>p. act_id (fst p)) ps)" using Cons.prems(1) by simp
  have others: "\<And>r' u'. (r', u') \<in> set ps \<Longrightarrow> act_id r' \<noteq> act_id r"
    using Cons.prems(1) by (force simp: p image_iff)
  have unchanged: "\<And>x. x \<in> set ?B \<Longrightarrow> act_id x \<noteq> act_id r \<Longrightarrow> x \<in> set (directus_activity ?s1)"
    by (force simp: by_id_def image_iff)
  have origin: "\<And>y. y \<in> set (directus_activity ?s1) \<Longrightarrow>
                  (y \<in> set ?B \<and> act_id y \<noteq> act_id r) \<or> (act_action y = COMMENT \<and> act_id y = act_id r)"
    by (auto simp: by_id_def restored_def)
  have i1: "\<forall>(r', u')\<in>set ps. (\<exists>x\<in>set (directus_activity ?s1). refers_to u' x) \<and>
             (\<forall>x\<in>set (directus_activity ?s1). refers_to u' x \<longrightarrow> act_id x = act_id r')"
  proof (intro ballI, clarify, intro conjI ballI impI)
    fix r' u' assume in_ps: "(r', u') \<in> set ps"
    then obtain x where x: "x \<in> set ?B" "refers_to u' x" and
      uniq: "\<forall>x\<in>set ?B. refers_to u' x \<longrightarrow> act_id x = act_id r'"
      using Cons.prems(2) by fastforce
    from x uniq have "act_id x = act_id r'" by auto
    with others [OF in_ps] have "act_id x \<noteq> act_id r" by simp
    from unchanged [OF x(1) this] x(2)
    show "\<exists>x\<in>set (directus_activity ?s1). refers_to u' x" by blast
    fix y assume y: "y \<in> set (directus_activity ?s1)" "refers_to u' y"
    from origin [OF y(1)] y(2) have "y \<in> set ?B"
      by (auto simp: refers_to_def)
    with uniq y(2) show "act_id y = act_id r'" by auto
  qed
  have k1: "\<forall>(r', u')\<in>set ps. \<forall>x\<in>set (directus_activity ?s1). act_id x = act_id r' \<longrightarrow>
             activity_ok e (restored (new_comment e r' u') x)"
  proof (intro ballI, clarify)
    fix r' u' x
    assume in_ps: "(r', u') \<in> set ps" and x: "x \<in> set (directus_activity ?s1)"
      and eq: "act_id x = act_id r'"
    from origin [OF x] eq others [OF in_ps] have "x \<in> set ?B" by auto
    with Cons.prems(3) in_ps eq show "activity_ok e (restored (new_comment e r' u') x)"
      by fastforce
  qed
  have "down_rows e (map (\<lambda>(r, u). new_comment e r u) ps) ?s1 =
         (None, ?s1\<lparr>directus_activity :=
                     fold (\<lambda>(r, u). by_id (act_id r) (restored (new_comment e r u))) ps
                       (directus_activity ?s1),
                  journal := journal ?s1 @
                     concat (map (\<lambda>(r, u). [SelectMigrated u, UpdateActivity (act_id r)]) ps)\<rparr>)"
    by (rule Cons.IH [OF d1 i1 k1])
  then show ?case
    using step by (simp add: down_rows_def p)
qed

section \<open>The rows selected and the identifiers drawn\<close>

lemma set_select:
  "set (select_activity_comments s) = {r \<in> set (directus_activity s). act_comment r \<noteq> None}"
  by (auto simp: select_activity_comments_def)

lemma sorted_select: "sorted (map act_id (select_activity_comments s))"
  by (simp add: select_activity_comments_def)

lemma distinct_select:
  assumes "distinct (map act_id (directus_activity s))"
  shows "distinct (map act_id (select_activity_comments s))"
proof -
  have "distinct (map act_id (filter (\<lambda>r. act_comment r \<noteq> None) (directus_activity s)))"
    using assms by (rule distinct_map_filter)
  moreover have "mset (map act_id (select_activity_comments s)) =
                 mset (map act_id (filter (\<lambda>r. act_comment r \<noteq> None) (directus_activity s)))"
    by (simp add: select_activity_comments_def)
  ultimately show ?thesis
    by (metis mset_eq_imp_distinct_iff)
qed

lemma map_fst_pairs: "map fst (pairs e s) = select_activity_comments s"
  by (simp add: pairs_def)

lemma map_snd_pairs:
  "map snd (pairs e s) = drawn e (uuid_calls s) (length (select_activity_comments s))"
  by (simp add: pairs_def)

lemma pair_of_member:
  assumes "distinct (map (\<lambda>p. act_id (fst p)) ps)" and "(r, u) \<in> set ps"
  shows "pair_of ps r = Some (r, u)"
  using assms
proof (induction ps)
  case Nil
  then show ?case by simp
next
  case (Cons p ps)
  show ?case
  proof (cases "p = (r, u)")
    case True
    then show ?thesis by (simp add: pair_of_def)
  next
    case False
    with Cons.prems have in_ps: "(r, u) \<in> set ps" by simp
    then have "act_id (fst p) \<noteq> act_id r"
      using Cons.prems(1) by (force simp: image_iff)
    then show ?thesis
      using Cons.IH in_ps Cons.prems(1) by (auto simp: pair_of_def split: prod.splits)
  qed
qed

lemma pair_of_Some:
  "pair_of ps x = Some (r, u) \<Longrightarrow> (r, u) \<in> set ps \<and> act_id r = act_id x"
  by (auto simp: pair_of_def find_Some_iff in_set_conv_nth)

lemma distinct_pairs:
  "distinct (map act_id (directus_activity s)) \<Longrightarrow>
   distinct (map (\<lambda>p. act_id (fst p)) (pairs e s))"
proof -
  assume "distinct (map act_id (directus_activity s))"
  then have "distinct (map act_id (select_activity_comments s))"
    by (rule distinct_select)
  moreover have "map (\<lambda>p. act_id (fst p)) (pairs e s) = map act_id (map fst (pairs e s))"
    by (simp only: map_map comp_def)
  ultimately show ?thesis by (simp add: map_fst_pairs)
qed

lemma up_result:
  assumes "up e s = (None, s')" and "distinct (map act_id (directus_activity s))"
  shows "directus_comments s = None \<and>
         s' = s\<lparr>directus_activity := map (forward e s) (directus_activity s),
                directus_comments := Some (map (\<lambda>(r, u). new_comment e r u) (pairs e s)),
                journal := journal s @ [CreateTable, SelectActivityComments] @
                             concat (map (\<lambda>(r, u). txn_block r u) (pairs e s)),
                uuid_calls := uuid_calls s + length (pairs e s)\<rparr>"
proof -
  have none: "directus_comments s = None"
    using assms(1) by (cases "directus_comments s") (auto simp: up_table_exists)
  let ?s0 = "s\<lparr>directus_comments := Some [],
                journal := journal s @ [CreateTable, SelectActivityComments]\<rparr>"
  let ?rows = "select_activity_comments s"
  have run: "up_rows e ?rows ?s0 = (None, s')"
    using assms(1) by (simp add: up_unfold [OF none])
  have c0: "directus_comments ?s0 = Some []" by simp
  have fold_map: "fold (\<lambda>(r, u). by_id (act_id r) (cross_reference u)) (pairs e s) (directus_activity s)
        = map (forward e s) (directus_activity s)"
    using fold_by_id [of "pairs e s" "\<lambda>r u. cross_reference u" "directus_activity s"]
      distinct_pairs [OF assms(2)]
    by (simp add: forward_def [abs_def] pair_of_def)
  show ?thesis
    using up_rows_success [OF run c0] none fold_map
    by (simp add: pairs_def)
qed

lemma up_completes:
  assumes "directus_comments s = None"
      and "distinct (map act_id (directus_activity s))"
      and "\<forall>r\<in>set (directus_activity s). act_comment r \<noteq> None \<longrightarrow>
             act_collection r \<in> directus_collections s \<and>
             (case act_user r of None \<Rightarrow> True | Some u \<Rightarrow> u \<in> directus_users s)"
      and "distinct (map snd (pairs e s))"
      and "\<forall>(r, u)\<in>set (pairs e s). activity_ok e (cross_reference u r)"
  shows "fst (up e s) = None"
proof -
  let ?s0 = "s\<lparr>directus_comments := Some [],
                journal := journal s @ [CreateTable, SelectActivityComments]\<rparr>"
  let ?rows = "select_activity_comments s"
  have c0: "directus_comments ?s0 = Some []" by simp
  have d: "distinct (map act_id ?rows)" using assms(2) by (rule distinct_select)
  have u: "\<forall>r\<in>set ?rows. \<forall>y\<in>set (directus_activity ?s0). act_id y = act_id r \<longrightarrow> y = r"
    using assms(2) by (auto simp: set_select distinct_map inj_on_def)
  have f: "\<forall>r\<in>set ?rows. act_comment r \<noteq> None \<and> act_collection r \<in> directus_collections ?s0 \<and>
             (case act_user r of None \<Rightarrow> True | Some u \<Rightarrow> u \<in> directus_users ?s0)"
    using assms(3) by (simp add: set_select cong: option.case_cong)
  have g: "distinct (map c_id [] @ drawn e (uuid_calls ?s0) (length ?rows))"
    using assms(4) by (simp add: map_snd_pairs)
  have h: "\<forall>(r, u)\<in>set (zip ?rows (drawn e (uuid_calls ?s0) (length ?rows))).
             activity_ok e (cross_reference u r)"
    using assms(5) by (simp add: pairs_def)
  have "fst (up_rows e ?rows ?s0) = None"
    by (rule up_rows_accepts [OF c0 d u f g h])
  then show ?thesis
    by (simp add: up_unfold [OF assms(1)])
qed

section \<open>Reverting a completed migration\<close>

lemma down_unfold:
  "directus_comments s = Some cs \<Longrightarrow>
   down e s = (case down_rows e cs (s\<lparr>journal := journal s @ [SelectComments]\<rparr>) of
                 (Some err, s') \<Rightarrow> (Some err, s')
               | (None, s') \<Rightarrow> dropTable s')"
  by (simp add: down_def down_rows_chunked sent_def split: prod.splits option.splits)

lemma pair_of_cong: "act_id x = act_id y \<Longrightarrow> pair_of ps x = pair_of ps y"
  by (simp add: pair_of_def)

lemma restored_cross_reference:
  "restored (new_comment e r u) (cross_reference u' r) = r\<lparr>act_action := COMMENT\<rparr>"
  by (simp add: restored_def new_comment_def cross_reference_def)

lemma refers_to_cross_reference [simp]: "refers_to u (cross_reference u' r) \<longleftrightarrow> u = u'"
  by (auto simp: refers_to_def cross_reference_def)

lemma pairs_member:
  assumes "(r, u) \<in> set (pairs e s)"
  shows "r \<in> set (directus_activity s) \<and> act_comment r \<noteq> None \<and> u \<in> set (map snd (pairs e s))"
proof -
  from assms have "fst (r, u) \<in> fst ` set (pairs e s)" by (rule imageI)
  then have "r \<in> set (map fst (pairs e s))" by simp
  then have "r \<in> set (select_activity_comments s)" by (simp only: map_fst_pairs)
  moreover from assms have "snd (r, u) \<in> snd ` set (pairs e s)" by (rule imageI)
  then have "u \<in> set (map snd (pairs e s))" by simp
  ultimately show ?thesis by (simp add: set_select)
qed

lemma pairs_cover:
  assumes "r \<in> set (directus_activity s)" and "act_comment r \<noteq> None"
  shows "\<exists>u. (r, u) \<in> set (pairs e s)"
proof -
  from assms have "r \<in> set (select_activity_comments s)" by (simp add: set_select)
  then have "r \<in> set (map fst (pairs e s))" by (simp only: map_fst_pairs)
  then show ?thesis by auto
qed

lemma same_id_same_row:
  "distinct (map act_id rows) \<Longrightarrow> x \<in> set rows \<Longrightarrow> y \<in> set rows \<Longrightarrow> act_id x = act_id y \<Longrightarrow> x = y"
  by (auto simp: distinct_map inj_on_def)

lemma forward_pair:
  assumes "distinct (map act_id (directus_activity s))" and "(r, u) \<in> set (pairs e s)"
  shows "forward e s r = cross_reference u r"
  using pair_of_member [OF distinct_pairs [OF assms(1)] assms(2)] by (simp add: forward_def)

lemma forward_other:
  assumes "distinct (map act_id (directus_activity s))"
      and "x \<in> set (directus_activity s)" and "act_comment x = None"
  shows "pair_of (pairs e s) x = None \<and> forward e s x = x"
proof -
  have "pair_of (pairs e s) x = None"
  proof (cases "pair_of (pairs e s) x")
    case None
    then show ?thesis .
  next
    case (Some p)
    obtain r u where p: "p = (r, u)" by (cases p)
    from Some p have in_ps: "(r, u) \<in> set (pairs e s)" and eq: "act_id r = act_id x"
      using pair_of_Some by blast+
    from pairs_member [OF in_ps] have "r \<in> set (directus_activity s)" "act_comment r \<noteq> None"
      by simp_all
    with same_id_same_row [OF assms(1) _ assms(2) eq] assms(3) show ?thesis by auto
  qed
  then show ?thesis by (simp add: forward_def)
qed

lemma act_id_forward [simp]: "act_id (forward e s x) = act_id x"
  by (simp add: forward_def split: option.splits)

lemma same_uuid_same_row:
  assumes "distinct (map snd ps)" and "(r, u) \<in> set ps" and "(r', u) \<in> set ps"
  shows "r = r'"
proof -
  from assms(1) have "inj_on snd (set ps)" by (simp add: distinct_map)
  from inj_onD [OF this _ assms(2,3)] show ?thesis by simp
qed

lemma down_after_up:
  assumes up: "up e s = (None, s1)"
      and dist: "distinct (map act_id (directus_activity s))"
      and uu: "distinct (map snd (pairs e s))"
      and fresh: "\<forall>x\<in>set (directus_activity s). act_item x \<notin> set (map snd (pairs e s))"
      and okc: "\<forall>r\<in>set (directus_activity s). act_comment r \<noteq> None \<longrightarrow>
                 activity_ok e (r\<lparr>act_action := COMMENT\<rparr>)"
  shows "down e s1 =
         (None, s1\<lparr>directus_activity :=
                      map (\<lambda>r. if act_comment r \<noteq> None then r\<lparr>act_action := COMMENT\<rparr> else r)
                        (directus_activity s),
                   directus_comments := None,
                   journal := journal s1 @ [SelectComments] @
                      concat (map (\<lambda>(r, u). [SelectMigrated u, UpdateActivity (act_id r)]) (pairs e s)) @
                      [DropTable]\<rparr>)"
proof -
  let ?A = "directus_activity s"
  let ?ps = "pairs e s"
  let ?cs = "map (\<lambda>(r, u). new_comment e r u) ?ps"
  let ?t = "s1\<lparr>journal := journal s1 @ [SelectComments]\<rparr>"
  let ?G = "\<lambda>x. case pair_of ?ps x of Some (r, u) \<Rightarrow> restored (new_comment e r u) x | None \<Rightarrow> x"
  from up_result [OF up dist]
  have s1: "s1 = s\<lparr>directus_activity := map (forward e s) ?A,
                directus_comments := Some ?cs,
                journal := journal s @ [CreateTable, SelectActivityComments] @
                             concat (map (\<lambda>(r, u). txn_block r u) ?ps),
                uuid_calls := uuid_calls s + length ?ps\<rparr>"
    by simp
  have act1: "directus_activity s1 = map (forward e s) ?A"
    by (subst s1) simp
  have com1: "directus_comments s1 = Some ?cs"
    by (subst s1) simp
  have dps: "distinct (map (\<lambda>p. act_id (fst p)) ?ps)"
    by (rule distinct_pairs [OF dist])
  have inv: "\<forall>(r, u)\<in>set ?ps. (\<exists>x\<in>set (directus_activity ?t). refers_to u x) \<and>
               (\<forall>x\<in>set (directus_activity ?t). refers_to u x \<longrightarrow> act_id x = act_id r)"
  proof (intro ballI, clarify, intro conjI ballI impI)
    fix r u assume in_ps: "(r, u) \<in> set ?ps"
    have "r \<in> set ?A" using pairs_member [OF in_ps] by simp
    then have "forward e s r \<in> set (directus_activity ?t)" by (simp add: act1)
    then show "\<exists>x\<in>set (directus_activity ?t). refers_to u x"
      using forward_pair [OF dist in_ps] refers_to_cross_reference by metis
    fix x assume x: "x \<in> set (directus_activity ?t)" and ref: "refers_to u x"
    from x obtain a where a: "a \<in> set ?A" and xa: "x = forward e s a"
      by (auto simp: act1)
    show "act_id x = act_id r"
    proof (cases "pair_of ?ps a")
      case None
      then have "x = a" by (simp add: xa forward_def)
      with ref have "act_item a = u" by (simp add: refers_to_def)
      with fresh a pairs_member [OF in_ps] show ?thesis by auto
    next
      case (Some p)
      obtain r' u' where p: "p = (r', u')" by (cases p)
      from Some p have in': "(r', u') \<in> set ?ps" and eq': "act_id r' = act_id a"
        using pair_of_Some by blast+
      from Some p have "x = cross_reference u' a" by (simp add: xa forward_def)
      with ref have "u = u'" by simp
      with same_uuid_same_row [OF uu in_ps] in' have "r = r'" by simp
      with eq' show ?thesis by (simp add: xa)
    qed
  qed
  have acc: "\<forall>(r, u)\<in>set ?ps. \<forall>x\<in>set (directus_activity ?t). act_id x = act_id r \<longrightarrow>
               activity_ok e (restored (new_comment e r u) x)"
  proof (intro ballI, clarify)
    fix r u x
    assume in_ps: "(r, u) \<in> set ?ps" and x: "x \<in> set (directus_activity ?t)"
      and eq: "act_id x = act_id r"
    from x obtain a where a: "a \<in> set ?A" and xa: "x = forward e s a"
      by (auto simp: act1)
    have r: "r \<in> set ?A" "act_comment r \<noteq> None" using pairs_member [OF in_ps] by simp_all
    from eq xa have "act_id a = act_id r" by simp
    from same_id_same_row [OF dist a r(1) this] have "a = r" .
    then have "x = cross_reference u r" using forward_pair [OF dist in_ps] xa by simp
    then show "activity_ok e (restored (new_comment e r u) x)"
      using okc r by (simp add: restored_cross_reference)
  qed
  have loop: "down_rows e ?cs ?t =
         (None, ?t\<lparr>directus_activity :=
                     fold (\<lambda>(r, u). by_id (act_id r) (restored (new_comment e r u))) ?ps
                       (directus_activity ?t),
                  journal := journal ?t @
                     concat (map (\<lambda>(r, u). [SelectMigrated u, UpdateActivity (act_id r)]) ?ps)\<rparr>)"
    by (rule down_rows_restore [OF dps inv acc])
  have "fold (\<lambda>(r, u). by_id (act_id r) (restored (new_comment e r u))) ?ps (directus_activity ?t)
        = map ?G (directus_activity ?t)"
    using fold_by_id [OF dps, of "\<lambda>r u. restored (new_comment e r u)" "directus_activity ?t"]
    by (simp add: pair_of_def)
  also have "\<dots> = map (\<lambda>a. ?G (forward e s a)) ?A"
    by (simp add: act1 comp_def)
  also have "\<dots> = map (\<lambda>r. if act_comment r \<noteq> None then r\<lparr>act_action := COMMENT\<rparr> else r) ?A"
  proof (rule map_cong [OF refl])
    fix a assume a: "a \<in> set ?A"
    show "?G (forward e s a) = (if act_comment a \<noteq> None then a\<lparr>act_action := COMMENT\<rparr> else a)"
    proof (cases "act_comment a = None")
      case True
      from forward_other [OF dist a True] pair_of_cong [of "forward e s a" a ?ps]
      show ?thesis using True by simp
    next
      case False
      from pairs_cover [OF a False] obtain u where in_ps: "(a, u) \<in> set ?ps" by blast
      have f: "forward e s a = cross_reference u a" by (rule forward_pair [OF dist in_ps])
      have "pair_of ?ps (forward e s a) = pair_of ?ps a" by (rule pair_of_cong) simp
      also have "\<dots> = Some (a, u)" by (rule pair_of_member [OF dps in_ps])
      finally show ?thesis using False by (simp add: f restored_cross_reference)
    qed
  qed
  finally have final: "fold (\<lambda>(r, u). by_id (act_id r) (restored (new_comment e r u))) ?ps
        (directus_activity ?t)
      = map (\<lambda>r. if act_comment r \<noteq> None then r\<lparr>act_action := COMMENT\<rparr> else r) ?A" .
  show ?thesis
    unfolding down_unfold [OF com1] loop final
    by (simp add: dropTable_def sent_def com1)
qed

section \<open>One row of the reverse migration\<close>

lemma insert_activity_ok:
  "activity_ok e (mk (next_id (directus_activity s))) \<Longrightarrow>
   insert_activity e mk s =
     (None, s\<lparr>directus_activity := directus_activity s @ [mk (next_id (directus_activity s))],
              journal := journal s @ [InsertActivity]\<rparr>)"
  by (simp add: insert_activity_def sent_def Let_def)

lemma update_activity_effect:
  assumes "update_activity e i f s = (res, s')"
  shows "journal s' = journal s @ [UpdateActivity i] \<and>
         directus_comments s' = directus_comments s \<and>
         (res = None \<longrightarrow> directus_activity s' = by_id i f (directus_activity s)) \<and>
         (res \<noteq> None \<longrightarrow> directus_activity s' = directus_activity s)"
  using assms
  by (auto simp: update_activity_def sent_def by_id_def Let_def split: if_splits)

lemma insert_activity_effect:
  assumes "insert_activity e mk s = (res, s')"
  shows "journal s' = journal s @ [InsertActivity] \<and>
         directus_comments s' = directus_comments s \<and>
         (res = None \<longrightarrow> directus_activity s' =
             directus_activity s @ [mk (next_id (directus_activity s))]) \<and>
         (res \<noteq> None \<longrightarrow> directus_activity s' = directus_activity s)"
  using assms
  by (auto simp: insert_activity_def sent_def Let_def split: if_splits)

lemma find_Some_member: "find P xs = Some m \<Longrightarrow> m \<in> set xs \<and> P m"
  by (auto simp: find_Some_iff)

lemma find_None_none: "find P xs = None \<longleftrightarrow> (\<forall>x\<in>set xs. \<not> P x)"
  by (auto simp: find_None_iff)

lemma down_row_cases:
  assumes "down_row e c s = (res, s')"
  shows "((\<exists>x\<in>set (directus_activity s). refers_to (c_id c) x) \<longrightarrow>
            (\<exists>m\<in>set (directus_activity s). refers_to (c_id c) m \<and>
               journal s' = journal s @ [SelectMigrated (c_id c), UpdateActivity (act_id m)] \<and>
               (res = None \<longrightarrow> directus_activity s' =
                  by_id (act_id m) (restored c) (directus_activity s)))) \<and>
         ((\<forall>x\<in>set (directus_activity s). \<not> refers_to (c_id c) x) \<and>
          (\<exists>x\<in>set (directus_activity s). shadows c x) \<longrightarrow>
            (\<exists>m\<in>set (directus_activity s). shadows c m \<and>
               journal s' = journal s @ [SelectMigrated (c_id c),
                  SelectUnmigrated (c_collection c) (c_item c), UpdateActivity (act_id m)] \<and>
               (res = None \<longrightarrow> directus_activity s' =
                  by_id (act_id m) (\<lambda>r. r\<lparr>act_comment := c_comment c\<rparr>) (directus_activity s)))) \<and>
         ((\<forall>x\<in>set (directus_activity s). \<not> refers_to (c_id c) x) \<and>
          (\<forall>x\<in>set (directus_activity s). \<not> shadows c x) \<longrightarrow>
            journal s' = journal s @ [SelectMigrated (c_id c),
                  SelectUnmigrated (c_collection c) (c_item c), InsertActivity] \<and>
            (res = None \<longrightarrow> directus_activity s' =
                  directus_activity s @ [fabricated c (next_id (directus_activity s))])) \<and>
         (res \<noteq> None \<longrightarrow> directus_activity s' = directus_activity s) \<and>
         directus_comments s' = directus_comments s"
proof (cases "migratedRecords c s")
  case (Some m)
  then have m: "m \<in> set (directus_activity s)" "refers_to (c_id c) m"
    by (auto simp: migratedRecords_find dest: find_Some_member)
  from assms have "update_activity e (act_id m) (restored c)
      (s\<lparr>journal := journal s @ [SelectMigrated (c_id c)]\<rparr>) = (res, s')"
    by (simp add: down_row_migrated [OF Some])
  from update_activity_effect [OF this] m show ?thesis
    by auto
next
  case None
  then have no_ref: "\<forall>x\<in>set (directus_activity s). \<not> refers_to (c_id c) x"
    by (simp add: migratedRecords_find find_None_none)
  show ?thesis
  proof (cases "unmigratedRecords c s")
    case (Some m)
    then have m: "m \<in> set (directus_activity s)" "shadows c m"
      by (auto simp: unmigratedRecords_find dest: find_Some_member)
    from assms have "update_activity e (act_id m) (\<lambda>r. r\<lparr>act_comment := c_comment c\<rparr>)
        (s\<lparr>journal := journal s @ [SelectMigrated (c_id c),
              SelectUnmigrated (c_collection c) (c_item c)]\<rparr>) = (res, s')"
      by (simp add: down_row_unmigrated [OF None Some])
    from update_activity_effect [OF this] m no_ref show ?thesis
      by auto
  next
    case None2: None
    then have no_sh: "\<forall>x\<in>set (directus_activity s). \<not> shadows c x"
      by (simp add: unmigratedRecords_find find_None_none)
    from assms have "insert_activity e (fabricated c)
        (s\<lparr>journal := journal s @ [SelectMigrated (c_id c),
              SelectUnmigrated (c_collection c) (c_item c)]\<rparr>) = (res, s')"
      by (simp add: down_row_fabricate [OF None None2])
    from insert_activity_effect [OF this] no_ref no_sh show ?thesis
      by auto
  qed
qed

lemma next_id_above: "x \<in> set rows \<Longrightarrow> act_id x < next_id rows"
proof -
  assume x: "x \<in> set rows"
  have "fold max (map act_id rows) 0 = Max (set (0 # map act_id rows))"
    by (rule Max.set_eq_fold [symmetric])
  moreover have "act_id x \<le> Max (set (0 # map act_id rows))"
    using x by (intro Max_ge) auto
  ultimately show ?thesis by (simp add: next_id_def)
qed

lemmas demo_rows = demo_comment_def demo_reference_def demo_shadow_def demo_other_def
  demo_with_def

section \<open>A failing forward migration\<close>

lemma for_each_fail:
  assumes "for_each f xs s = (Some err, s')"
  shows "\<exists>j<length xs. \<exists>t. for_each f (take j xs) s = (None, t) \<and> f (xs ! j) t = (Some err, s')"
  using assms
proof (induction xs arbitrary: s)
  case Nil
  then show ?case by simp
next
  case (Cons x xs)
  show ?case
  proof (cases "f x s")
    case (Pair r s1)
    show ?thesis
    proof (cases r)
      case None
      with Pair Cons.prems have "for_each f xs s1 = (Some err, s')" by simp
      from Cons.IH [OF this] obtain j t where j: "j < length xs"
        and t: "for_each f (take j xs) s1 = (None, t)" "f (xs ! j) t = (Some err, s')"
        by blast
      have "for_each f (take (Suc j) (x # xs)) s = (None, t)"
        using Pair None t(1) by simp
      moreover have "f ((x # xs) ! Suc j) t = (Some err, s')" using t(2) by simp
      ultimately show ?thesis using j by (intro exI [of _ "Suc j"]) auto
    next
      case (Some a)
      with Pair Cons.prems have "f x s = (Some err, s')" by simp
      then show ?thesis by (intro exI [of _ 0]) auto
    qed
  qed
qed

lemma up_rows_distinct:
  assumes "up_rows e rows s = (None, s')" and "directus_comments s = Some cs"
      and "distinct (map c_id cs)"
  shows "distinct (map c_id cs @ drawn e (uuid_calls s) (length rows))"
  using assms
proof (induction rows arbitrary: s cs)
  case Nil
  then show ?case by simp
next
  case (Cons r rows)
  let ?u = "randomUUID e (uuid_calls s)"
  from Cons.prems(1) obtain s1 where
    1: "transaction (up_row e r) s = (None, s1)" and 2: "up_rows e rows s1 = (None, s')"
    by (auto simp: up_rows_Cons split: prod.splits option.splits)
  have acc: "accepted e r s" using 1 by (rule up_row_txn_ok)
  then have fresh: "?u \<notin> set (map c_id cs)"
    using Cons.prems(2) by (simp add: accepted_def)
  have s1: "directus_comments s1 = Some (cs @ [new_comment e r ?u])" "uuid_calls s1 = Suc (uuid_calls s)"
    using up_row_txn_accepted [OF acc] 1 Cons.prems(2) by auto
  have d: "distinct (map c_id (cs @ [new_comment e r ?u]))"
    using Cons.prems(3) fresh by (simp add: new_comment_def)
  from Cons.IH [OF 2 s1(1) d] show ?case
    by (auto simp: drawn_Suc s1(2) new_comment_def)
qed

lemma up_distinct_uuids:
  assumes "up e s = (None, s')"
  shows "distinct (map snd (pairs e s))"
proof -
  have none: "directus_comments s = None"
    using assms by (cases "directus_comments s") (auto simp: up_table_exists)
  let ?s0 = "s\<lparr>directus_comments := Some [],
                journal := journal s @ [CreateTable, SelectActivityComments]\<rparr>"
  have run: "up_rows e (select_activity_comments s) ?s0 = (None, s')"
    using assms by (simp add: up_unfold [OF none])
  from up_rows_distinct [OF run, of "[]"] show ?thesis
    by (simp add: map_snd_pairs)
qed

lemma take_pairs:
  "take j (pairs e s) =
     zip (take j (select_activity_comments s)) (drawn e (uuid_calls s) (length (take j (select_activity_comments s))))"
proof -
  have "take j (drawn e k n) = drawn e k (min j n)" for k n
    by (simp add: drawn_def take_map min_def)
  then show ?thesis
    by (simp add: pairs_def take_zip min.commute)
qed

lemma up_stops_at:
  assumes none: "directus_comments s = None"
      and dist: "distinct (map act_id (directus_activity s))"
      and j: "j < length (select_activity_comments s)"
      and pre: "up_rows e (take j (select_activity_comments s))
                  (sent SelectActivityComments (snd (createTable s))) = (None, t)"
      and row: "transaction (up_row e (select_activity_comments s ! j)) t = (Some err, t')"
  shows "up e s = (Some err, t')"
    and "directus_comments t' = directus_comments t"
    and "directus_activity t' = directus_activity t"
    and "directus_comments t' = Some (map (\<lambda>(r, u). new_comment e r u) (take j (pairs e s)))"
    and "directus_activity t' = map (marked (take j (pairs e s))) (directus_activity s)"
proof -
  let ?s0 = "s\<lparr>directus_comments := Some [],
                journal := journal s @ [CreateTable, SelectActivityComments]\<rparr>"
  let ?rows = "select_activity_comments s"
  have s0: "sent SelectActivityComments (snd (createTable s)) = ?s0"
    using none by (simp add: createTable_def sent_def)
  have pre0: "up_rows e (take j ?rows) ?s0 = (None, t)"
    using pre by (simp only: s0)
  then have loop: "for_each (\<lambda>comment. transaction (up_row e comment)) (take j ?rows) ?s0 = (None, t)"
    by (simp add: up_rows_def)
  have "for_each (\<lambda>comment. transaction (up_row e comment)) ?rows ?s0 = (Some err, t')"
    by (rule for_each_stops [OF j loop row])
  then show "up e s = (Some err, t')"
    by (simp add: up_unfold [OF none] up_rows_def)
  note same = up_row_txn_fail [OF row]
  from same show "directus_comments t' = directus_comments t" by simp
  from same show "directus_activity t' = directus_activity t" by simp
  let ?ps = "take j (pairs e s)"
  have ps: "?ps = zip (take j ?rows) (drawn e (uuid_calls ?s0) (length (take j ?rows)))"
    by (simp add: take_pairs)
  have c0: "directus_comments ?s0 = Some []" by simp
  have dps: "distinct (map (\<lambda>p. act_id (fst p)) ?ps)"
    using distinct_pairs [OF dist, of e] by (simp add: take_map [symmetric] distinct_take)
  have t: "directus_activity t =
             fold (\<lambda>(r, u). by_id (act_id r) (cross_reference u)) ?ps (directus_activity s)"
          "directus_comments t = Some (map (\<lambda>(r, u). new_comment e r u) ?ps)"
    by (subst up_rows_success [OF pre0 c0], simp add: ps)+
  have fm: "fold (\<lambda>(r, u). by_id (act_id r) (cross_reference u)) ?ps (directus_activity s)
        = map (marked ?ps) (directus_activity s)"
    using fold_by_id [OF dps, of "\<lambda>r u. cross_reference u" "directus_activity s"]
    by (simp add: marked_def [abs_def] pair_of_def)
  from t(2) same show "directus_comments t' = Some (map (\<lambda>(r, u). new_comment e r u) ?ps)"
    by simp
  from t(1) fm same show "directus_activity t' = map (marked ?ps) (directus_activity s)"
    by simp
qed

lemma up_failure_row:
  assumes none: "directus_comments s = None"
      and fail: "up e s = (Some err, s')"
  shows "\<exists>j<length (select_activity_comments s). \<exists>t.
           up_rows e (take j (select_activity_comments s))
             (sent SelectActivityComments (snd (createTable s))) = (None, t) \<and>
           transaction (up_row e (select_activity_comments s ! j)) t = (Some err, s')"
proof -
  let ?s0 = "s\<lparr>directus_comments := Some [],
                journal := journal s @ [CreateTable, SelectActivityComments]\<rparr>"
  have s0: "sent SelectActivityComments (snd (createTable s)) = ?s0"
    using none by (simp add: createTable_def sent_def)
  have "for_each (\<lambda>comment. transaction (up_row e comment)) (select_activity_comments s) ?s0
          = (Some err, s')"
    using fail by (simp add: up_unfold [OF none] up_rows_def)
  from for_each_fail [OF this] show ?thesis
    unfolding s0 up_rows_def .
qed

lemma marked_split:
  assumes dist: "distinct (map act_id (directus_activity s))"
      and act: "rows' = map (marked (take j (pairs e s))) (directus_activity s)"
  shows "\<forall>(r, u)\<in>set (take j (pairs e s)). cross_reference u r \<in> set rows'"
    and "\<forall>(r, u)\<in>set (drop j (pairs e s)). r \<in> set rows'"
proof -
  let ?ps = "pairs e s"
  have dps: "distinct (map (\<lambda>p. act_id (fst p)) ?ps)" by (rule distinct_pairs [OF dist])
  have dtake: "distinct (map (\<lambda>p. act_id (fst p)) (take j ?ps))"
    using dps by (simp add: take_map [symmetric] distinct_take)
  show "\<forall>(r, u)\<in>set (take j ?ps). cross_reference u r \<in> set rows'"
  proof (intro ballI, clarify)
    fix r u assume in_t: "(r, u) \<in> set (take j ?ps)"
    then have "(r, u) \<in> set ?ps" by (rule in_set_takeD)
    then have "r \<in> set (directus_activity s)" using pairs_member by blast
    moreover have "marked (take j ?ps) r = cross_reference u r"
      using pair_of_member [OF dtake in_t] by (simp add: marked_def)
    ultimately show "cross_reference u r \<in> set rows'"
      by (force simp: act)
  qed
  show "\<forall>(r, u)\<in>set (drop j ?ps). r \<in> set rows'"
  proof (intro ballI, clarify)
    fix r u assume in_d: "(r, u) \<in> set (drop j ?ps)"
    then have "(r, u) \<in> set ?ps" by (rule in_set_dropD)
    then have r: "r \<in> set (directus_activity s)" using pairs_member by blast
    have "distinct (map (\<lambda>p. act_id (fst p)) (take j ?ps @ drop j ?ps))"
      using dps by simp
    then have disj: "set (map (\<lambda>p. act_id (fst p)) (take j ?ps)) \<inter>
                     set (map (\<lambda>p. act_id (fst p)) (drop j ?ps)) = {}"
      unfolding map_append distinct_append by blast
    have "pair_of (take j ?ps) r = None"
    proof (cases "pair_of (take j ?ps) r")
      case None
      then show ?thesis .
    next
      case (Some p)
      obtain r' u' where p: "p = (r', u')" by (cases p)
      from Some p have "(r', u') \<in> set (take j ?ps)" "act_id r' = act_id r"
        using pair_of_Some by blast+
      then have "act_id r \<in> set (map (\<lambda>p. act_id (fst p)) (take j ?ps))" by force
      moreover have "act_id r \<in> set (map (\<lambda>p. act_id (fst p)) (drop j ?ps))"
        using in_d by force
      ultimately show ?thesis using disj by blast
    qed
    then have "marked (take j ?ps) r = r" by (simp add: marked_def)
    with r show "r \<in> set rows'" by (force simp: act)
  qed
qed

lemma length_select:
  "length (select_activity_comments s) =
     length (filter (\<lambda>r. act_comment r \<noteq> None) (directus_activity s))"
  by (simp add: select_activity_comments_def)

lemma c_id_new_comments:
  "map c_id (map (\<lambda>(r, u). new_comment e r u) ps) = map snd ps"
  by (induction ps) (auto simp: new_comment_def)

lemma demo_db_fields:
  "directus_collections demo_db = {''articles''}"
  "directus_users demo_db = {''u1''}"
  "directus_activity demo_db =
        [\<lparr>act_id = 5, act_action = COMMENT, act_collection = ''articles'', act_item = ''42'',
          act_comment = Some ''nice'', act_user = Some ''u1'', act_timestamp = Some 1600000000\<rparr>,
         \<lparr>act_id = 2, act_action = CREATE, act_collection = ''articles'', act_item = ''42'',
          act_comment = None, act_user = Some ''u1'', act_timestamp = Some 1500000000\<rparr>,
         \<lparr>act_id = 3, act_action = COMMENT, act_collection = ''articles'', act_item = ''7'',
          act_comment = Some ''first'', act_user = None, act_timestamp = Some 1550000000\<rparr>]"
  "directus_comments demo_db = None"
  "journal demo_db = []"
  "uuid_calls demo_db = 0"
  by (simp_all add: demo_db_def)

lemma demo_env_fields:
  "randomUUID demo_env = (\<lambda>n. ''uuid-'' @ replicate n CHR ''x'')"
  "now demo_env = 1700000000"
  "activity_ok demo_env = (\<lambda>r. length (act_collection r) \<le> 64)"
  by (simp_all add: demo_env_def)

section \<open>The statements of the reverse migration\<close>

lemma reconciled_append: "reconciled (xs @ ys) = reconciled xs @ reconciled ys"
  by (induction xs rule: reconciled.induct) auto

lemma down_row_journal:
  assumes "down_row e c s = (res, s')"
  shows "\<exists>evs. journal s' = journal s @ evs \<and> DropTable \<notin> set evs \<and>
           reconciled evs = [c_id c] \<and> length (writes evs) = 1 \<and>
           directus_comments s' = directus_comments s"
proof (cases "migratedRecords c s")
  case (Some m)
  from assms have "update_activity e (act_id m) (restored c)
      (s\<lparr>journal := journal s @ [SelectMigrated (c_id c)]\<rparr>) = (res, s')"
    by (simp add: down_row_migrated [OF Some])
  from update_activity_effect [OF this] show ?thesis
    by (intro exI [of _ "[SelectMigrated (c_id c), UpdateActivity (act_id m)]"]) (simp add: writes_def)
next
  case None
  show ?thesis
  proof (cases "unmigratedRecords c s")
    case (Some m)
    from assms have "update_activity e (act_id m) (\<lambda>r. r\<lparr>act_comment := c_comment c\<rparr>)
        (s\<lparr>journal := journal s @ [SelectMigrated (c_id c),
              SelectUnmigrated (c_collection c) (c_item c)]\<rparr>) = (res, s')"
      by (simp add: down_row_unmigrated [OF None Some])
    from update_activity_effect [OF this] show ?thesis
      by (intro exI [of _ "[SelectMigrated (c_id c),
            SelectUnmigrated (c_collection c) (c_item c), UpdateActivity (act_id m)]"]) (simp add: writes_def)
  next
    case None2: None
    from assms have "insert_activity e (fabricated c)
        (s\<lparr>journal := journal s @ [SelectMigrated (c_id c),
              SelectUnmigrated (c_collection c) (c_item c)]\<rparr>) = (res, s')"
      by (simp add: down_row_fabricate [OF None None2])
    from insert_activity_effect [OF this] show ?thesis
      by (intro exI [of _ "[SelectMigrated (c_id c),
            SelectUnmigrated (c_collection c) (c_item c), InsertActivity]"]) (simp add: writes_def)
  qed
qed

lemma down_rows_journal:
  assumes "down_rows e cs s = (res, s')"
  shows "\<exists>evs. journal s' = journal s @ evs \<and> DropTable \<notin> set evs \<and>
           directus_comments s' = directus_comments s \<and>
           (res = None \<longrightarrow> reconciled evs = map c_id cs \<and> length (writes evs) = length cs) \<and>
           (res \<noteq> None \<longrightarrow> (\<exists>j<length cs. reconciled evs = map c_id (take (Suc j) cs)))"
  using assms
proof (induction cs arbitrary: s)
  case Nil
  then have "res = None" "s' = s" by (simp_all add: down_rows_def)
  then show ?case by (intro exI [of _ "[]"]) (simp add: writes_def)
next
  case (Cons c cs)
  obtain r1 s1 where row: "down_row e c s = (r1, s1)" by (cases "down_row e c s")
  from down_row_journal [OF row] obtain evs1 where
    1: "journal s1 = journal s @ evs1" "DropTable \<notin> set evs1" "reconciled evs1 = [c_id c]"
       "directus_comments s1 = directus_comments s" "length (writes evs1) = 1"
    by auto
  show ?case
  proof (cases r1)
    case None
    with Cons.prems row have rest: "down_rows e cs s1 = (res, s')"
      by (simp add: down_rows_def)
    from Cons.IH [OF rest] obtain evs2 where
      all2: "journal s' = journal s1 @ evs2 \<and> DropTable \<notin> set evs2 \<and>
         directus_comments s' = directus_comments s1 \<and>
         (res = None \<longrightarrow> reconciled evs2 = map c_id cs \<and> length (writes evs2) = length cs) \<and>
         (res \<noteq> None \<longrightarrow> (\<exists>j<length cs. reconciled evs2 = map c_id (take (Suc j) cs)))" ..
    then have
      2: "journal s' = journal s1 @ evs2" "DropTable \<notin> set evs2"
         "directus_comments s' = directus_comments s1"
         "res = None \<longrightarrow> reconciled evs2 = map c_id cs \<and> length (writes evs2) = length cs"
         "res \<noteq> None \<longrightarrow> (\<exists>j<length cs. reconciled evs2 = map c_id (take (Suc j) cs))"
      by blast+
    have "res \<noteq> None \<longrightarrow>
            (\<exists>j<length (c # cs). reconciled (evs1 @ evs2) = map c_id (take (Suc j) (c # cs)))"
    proof
      assume "res \<noteq> None"
      with 2(5) obtain j where "j < length cs" "reconciled evs2 = map c_id (take (Suc j) cs)"
        by blast
      then show "\<exists>j<length (c # cs). reconciled (evs1 @ evs2) = map c_id (take (Suc j) (c # cs))"
        using 1(3) by (intro exI [of _ "Suc j"]) (simp add: reconciled_append)
    qed
    moreover have "res = None \<longrightarrow> reconciled (evs1 @ evs2) = map c_id (c # cs) \<and>
                     length (writes (evs1 @ evs2)) = length (c # cs)"
      using 1(3,5) 2(4) by (simp add: reconciled_append writes_def)
    moreover have "journal s' = journal s @ evs1 @ evs2" using 1(1) 2(1) by simp
    moreover have "DropTable \<notin> set (evs1 @ evs2)" using 1(2) 2(2) by simp
    moreover have "directus_comments s' = directus_comments s" using 1(4) 2(3) by simp
    ultimately show ?thesis
      by (intro exI [of _ "evs1 @ evs2"]) blast
  next
    case (Some err)
    with Cons.prems row have res: "res = Some err" "s' = s1"
      by (simp_all add: down_rows_def)
    have "\<exists>j<length (c # cs). reconciled evs1 = map c_id (take (Suc j) (c # cs))"
      using 1(3) by (intro exI [of _ 0]) simp
    with 1 res show ?thesis
      by (intro exI [of _ evs1]) simp
  qed
qed

lemma down_stops_at:
  assumes cs: "directus_comments s = Some cs"
      and j: "j < length cs"
      and pre: "down_rows e (take j cs) (sent SelectComments s) = (None, t)"
      and row: "down_row e (cs ! j) t = (Some err, t')"
  shows "down e s = (Some err, t')"
    and "directus_comments t' = Some cs"
    and "\<exists>evs. journal t' = journal s @ [SelectComments] @ evs \<and> DropTable \<notin> set evs \<and>
               reconciled evs = map c_id (take (Suc j) cs)"
proof -
  let ?t = "s\<lparr>journal := journal s @ [SelectComments]\<rparr>"
  have st: "sent SelectComments s = ?t" by (simp add: sent_def)
  have loop: "for_each (down_row e) (take j cs) ?t = (None, t)"
    using pre by (simp add: st down_rows_def)
  have "for_each (down_row e) cs ?t = (Some err, t')"
    by (rule for_each_stops [OF j loop row])
  then show "down e s = (Some err, t')"
    by (simp add: down_unfold [OF cs] down_rows_def)
  from down_rows_journal [OF pre]
  have "\<exists>evs. journal t = journal s @ [SelectComments] @ evs \<and> DropTable \<notin> set evs \<and>
              directus_comments t = Some cs \<and> reconciled evs = map c_id (take j cs)"
    using cs by (auto simp: sent_def)
  then obtain evs0 where
    a0: "journal t = journal s @ [SelectComments] @ evs0 \<and> DropTable \<notin> set evs0 \<and>
         directus_comments t = Some cs \<and> reconciled evs0 = map c_id (take j cs)" ..
  from down_row_journal [OF row] obtain evs1 where
    a1: "journal t' = journal t @ evs1 \<and> DropTable \<notin> set evs1 \<and>
         reconciled evs1 = [c_id (cs ! j)] \<and> length (writes evs1) = 1 \<and>
         directus_comments t' = directus_comments t" ..
  show "directus_comments t' = Some cs" using a0 a1 by simp
  have "map c_id (take (Suc j) cs) = map c_id (take j cs) @ [c_id (cs ! j)]"
    using j by (simp add: take_Suc_conv_app_nth)
  then show "\<exists>evs. journal t' = journal s @ [SelectComments] @ evs \<and> DropTable \<notin> set evs \<and>
               reconciled evs = map c_id (take (Suc j) cs)"
    using a0 a1 by (intro exI [of _ "evs0 @ evs1"]) (simp add: reconciled_append)
qed

lemma down_failure_row:
  assumes cs: "directus_comments s = Some cs"
      and fail: "down e s = (Some err, s')"
  shows "\<exists>j<length cs. \<exists>t.
           down_rows e (take j cs) (sent SelectComments s) = (None, t) \<and>
           down_row e (cs ! j) t = (Some err, s')"
proof -
  let ?t = "s\<lparr>journal := journal s @ [SelectComments]\<rparr>"
  have st: "sent SelectComments s = ?t" by (simp add: sent_def)
  obtain r1 s1 where loop: "down_rows e cs ?t = (r1, s1)" by (cases "down_rows e cs ?t")
  from down_rows_journal [OF loop] have c1: "directus_comments s1 = Some cs"
    using cs by auto
  have "r1 = Some err \<and> s1 = s'"
  proof (cases r1)
    case None
    then have "down e s = dropTable s1"
      using loop by (simp add: down_unfold [OF cs])
    with fail c1 show ?thesis by (simp add: dropTable_def sent_def)
  next
    case (Some a)
    then have "down e s = (Some a, s1)"
      using loop by (simp add: down_unfold [OF cs])
    with fail Some show ?thesis by simp
  qed
  with loop have "for_each (down_row e) cs ?t = (Some err, s')"
    by (simp add: down_rows_def)
  from for_each_fail [OF this] show ?thesis
    unfolding st down_rows_def .
qed

section \<open>What the forward migration leaves alone\<close>

lemma up_row_txn_journal:
  assumes "transaction (up_row e r) s = (res, s')"
  shows "\<exists>evs. journal s' = journal s @ evs \<and> (\<forall>i. UpdateActivity i \<in> set evs \<longrightarrow> i = act_id r)"
proof (cases "accepted e r s")
  case True
  from up_row_txn_accepted [OF True] assms show ?thesis by auto
next
  case False
  show ?thesis
  proof (cases "insert_comment e (randomUUID e (uuid_calls s)) (act_collection r) (act_item r)
                  (act_comment r) (act_user r) (act_timestamp r)
                  (sent Begin s\<lparr>uuid_calls := Suc (uuid_calls s)\<rparr>)")
    case (Pair r1 s1)
    have j1: "journal s1 = journal s @ [Begin, InsertComment (randomUUID e (uuid_calls s))]"
      using Pair by (auto simp: insert_comment_def sent_def Let_def split: option.splits if_splits)
    show ?thesis
    proof (cases r1)
      case (Some err)
      with Pair assms have "journal s' = journal s1 @ [Rollback]"
        by (auto simp: transaction_def up_row_def sent_def Let_def)
      with j1 show ?thesis by simp
    next
      case None
      obtain r2 s2 where u: "update_activity e (act_id r)
               (\<lambda>r. r\<lparr>act_action := CREATE, act_collection := ''directus_comments'',
                       act_item := randomUUID e (uuid_calls s), act_comment := None\<rparr>) s1 = (r2, s2)"
        by (cases "update_activity e (act_id r)
               (\<lambda>r. r\<lparr>act_action := CREATE, act_collection := ''directus_comments'',
                       act_item := randomUUID e (uuid_calls s), act_comment := None\<rparr>) s1")
      have j2: "journal s2 = journal s1 @ [UpdateActivity (act_id r)]"
        using update_activity_effect [OF u] by simp
      have "journal s' = journal s2 @ [Commit] \<or> journal s' = journal s2 @ [Rollback]"
        using Pair None u assms
        by (cases r2) (auto simp: transaction_def up_row_def sent_def Let_def)
      with j1 j2 show ?thesis by auto
    qed
  qed
qed

lemma untouched_refl: "untouched I s s"
  by (simp add: untouched_def)

lemma untouched_trans: "untouched I a b \<Longrightarrow> untouched I b c \<Longrightarrow> untouched I a c"
proof -
  assume ab: "untouched I a b" and bc: "untouched I b c"
  have len: "length (directus_activity b) = length (directus_activity a)"
    using ab by (metis length_map untouched_def)
  have ids: "map act_id (directus_activity c) = map act_id (directus_activity a)"
    using ab bc by (simp add: untouched_def)
  have "directus_activity c ! i = directus_activity a ! i"
    if i: "i < length (directus_activity a)" and out: "act_id (directus_activity a ! i) \<notin> I" for i
  proof -
    have 1: "directus_activity b ! i = directus_activity a ! i"
      using ab i out by (simp add: untouched_def)
    then have "act_id (directus_activity b ! i) \<notin> I" using out by simp
    then have "directus_activity c ! i = directus_activity b ! i"
      using bc i len by (simp add: untouched_def)
    with 1 show ?thesis by simp
  qed
  with ids show ?thesis by (simp add: untouched_def)
qed

lemma copies_only_refl: "copies_only e rows s s"
  unfolding copies_only_def by (intro exI [of _ "[]"]) (simp add: option.map_ident)

lemma copies_only_trans:
  "copies_only e rows a b \<Longrightarrow> copies_only e rows b c \<Longrightarrow> copies_only e rows a c"
proof -
  assume "copies_only e rows a b" and "copies_only e rows b c"
  then obtain n1 n2 where
    1: "directus_comments b = map_option (\<lambda>cs. cs @ n1) (directus_comments a)"
       "\<forall>c\<in>set n1. \<exists>r\<in>set rows. \<exists>u. c = new_comment e r u" and
    2: "directus_comments c = map_option (\<lambda>cs. cs @ n2) (directus_comments b)"
       "\<forall>c\<in>set n2. \<exists>r\<in>set rows. \<exists>u. c = new_comment e r u"
    unfolding copies_only_def by blast
  have "directus_comments c = map_option (\<lambda>cs. cs @ (n1 @ n2)) (directus_comments a)"
    by (simp add: 1(1) 2(1) option.map_comp comp_def)
  moreover have "\<forall>c\<in>set (n1 @ n2). \<exists>r\<in>set rows. \<exists>u. c = new_comment e r u"
    using 1(2) 2(2) by auto
  ultimately show ?thesis unfolding copies_only_def by blast
qed

lemma updates_within_refl: "updates_within I s s"
  unfolding updates_within_def by (intro exI [of _ "[]"]) simp

lemma updates_within_trans:
  "updates_within I a b \<Longrightarrow> updates_within I b c \<Longrightarrow> updates_within I a c"
proof -
  assume "updates_within I a b" and "updates_within I b c"
  then obtain e1 e2 where
    1: "journal b = journal a @ e1" "\<forall>i. UpdateActivity i \<in> set e1 \<longrightarrow> i \<in> I" and
    2: "journal c = journal b @ e2" "\<forall>i. UpdateActivity i \<in> set e2 \<longrightarrow> i \<in> I"
    unfolding updates_within_def by blast
  have "journal c = journal a @ (e1 @ e2)" by (simp add: 1(1) 2(1))
  moreover have "\<forall>i. UpdateActivity i \<in> set (e1 @ e2) \<longrightarrow> i \<in> I" using 1(2) 2(2) by auto
  ultimately show ?thesis unfolding updates_within_def by blast
qed

lemma marks_only_refl: "marks_only s s"
  by (simp add: marks_only_def list_all2_same)

lemma cross_reference_twice [simp]:
  "cross_reference u (cross_reference u' x) = cross_reference u x"
  by (simp add: cross_reference_def)

lemma marks_only_trans: "marks_only a b \<Longrightarrow> marks_only b c \<Longrightarrow> marks_only a c"
proof -
  assume ab: "marks_only a b" and bc: "marks_only b c"
  show ?thesis
    unfolding marks_only_def
    by (rule list_all2_trans [OF _ ab [unfolded marks_only_def] bc [unfolded marks_only_def]])
      auto
qed

lemma up_row_txn_frame:
  assumes "transaction (up_row e r) s = (res, s')" and "act_id r \<in> I" and "r \<in> set rows"
  shows "untouched I s s'" and "copies_only e rows s s'" and "updates_within I s s'"
    and "marks_only s s'"
proof -
  show "updates_within I s s'"
    using up_row_txn_journal [OF assms(1)] assms(2) unfolding updates_within_def by blast
  show "untouched I s s'" "copies_only e rows s s'" "marks_only s s'"
  proof (atomize (full), cases res)
    case None
    with assms(1) have acc: "accepted e r s" by (simp add: up_row_txn_ok)
    then obtain cs where cs: "directus_comments s = Some cs"
      by (auto simp: accepted_def split: option.splits)
    let ?u = "randomUUID e (uuid_calls s)"
    from up_row_txn_accepted [OF acc] assms(1)
    have act: "directus_activity s' = by_id (act_id r) (cross_reference ?u) (directus_activity s)"
      and com: "directus_comments s' = Some (cs @ [new_comment e r ?u])"
      using cs by auto
    have "untouched I s s'"
      using assms(2) by (auto simp: untouched_def act by_id_def)
    moreover have "copies_only e rows s s'"
      unfolding copies_only_def using assms(3)
      by (intro exI [of _ "[new_comment e r ?u]"]) (auto simp: com cs)
    moreover have "marks_only s s'"
      by (auto simp: marks_only_def act by_id_def list_all2_conv_all_nth)
    ultimately show "untouched I s s' \<and> copies_only e rows s s' \<and> marks_only s s'" by simp
  next
    case (Some err)
    with up_row_txn_fail [of e r s err s'] assms(1)
    have same: "directus_activity s' = directus_activity s" "directus_comments s' = directus_comments s"
      by simp_all
    have "copies_only e rows s s'"
      unfolding copies_only_def by (intro exI [of _ "[]"]) (simp add: same option.map_ident)
    then show "untouched I s s' \<and> copies_only e rows s s' \<and> marks_only s s'"
      by (simp add: untouched_def marks_only_def same list_all2_same)
  qed
qed

lemma up_rows_frame:
  assumes "act_id ` set rows \<subseteq> I" and "set rows \<subseteq> set all_rows"
  shows "untouched I s (snd (up_rows e rows s))"
    and "copies_only e all_rows s (snd (up_rows e rows s))"
    and "updates_within I s (snd (up_rows e rows s))"
    and "marks_only s (snd (up_rows e rows s))"
proof -
  have step: "untouched I t (snd (transaction (up_row e r) t))"
             "copies_only e all_rows t (snd (transaction (up_row e r) t))"
             "updates_within I t (snd (transaction (up_row e r) t))"
             "marks_only t (snd (transaction (up_row e r) t))"
    if "r \<in> set rows" for r t
    using up_row_txn_frame [where e = e and r = r and s = t and I = I and rows = all_rows,
        OF surjective_pairing] that assms by auto
  show "untouched I s (snd (up_rows e rows s))"
    unfolding up_rows_def
    by (rule for_each_rel [where R = "untouched I"])
      (auto intro: untouched_refl untouched_trans step)
  show "copies_only e all_rows s (snd (up_rows e rows s))"
    unfolding up_rows_def
    by (rule for_each_rel [where R = "copies_only e all_rows"])
      (auto intro: copies_only_refl copies_only_trans step)
  show "updates_within I s (snd (up_rows e rows s))"
    unfolding up_rows_def
    by (rule for_each_rel [where R = "updates_within I"])
      (auto intro: updates_within_refl updates_within_trans step)
  show "marks_only s (snd (up_rows e rows s))"
    unfolding up_rows_def
    by (rule for_each_rel [where R = marks_only])
      (auto intro: marks_only_refl marks_only_trans step)
qed

lemma up_frame:
  shows "untouched (act_id ` set (select_activity_comments s)) s (snd (up e s))"
    and "updates_within (act_id ` set (select_activity_comments s)) s (snd (up e s))"
    and "marks_only s (snd (up e s))"
    and "directus_comments s = None \<Longrightarrow>
           \<exists>new. directus_comments (snd (up e s)) = Some new \<and>
             (\<forall>c\<in>set new. \<exists>r\<in>set (select_activity_comments s). \<exists>u. c = new_comment e r u)"
proof -
  let ?rows = "select_activity_comments s"
  let ?I = "act_id ` set ?rows"
  let ?s0 = "s\<lparr>directus_comments := Some [],
                journal := journal s @ [CreateTable, SelectActivityComments]\<rparr>"
  have fr: "untouched ?I ?s0 (snd (up_rows e ?rows ?s0))"
           "copies_only e ?rows ?s0 (snd (up_rows e ?rows ?s0))"
           "updates_within ?I ?s0 (snd (up_rows e ?rows ?s0))"
           "marks_only ?s0 (snd (up_rows e ?rows ?s0))"
    by (rule up_rows_frame [OF subset_refl subset_refl])+
  have u0: "untouched ?I s ?s0" by (simp add: untouched_def)
  have w0: "updates_within ?I s ?s0"
    unfolding updates_within_def
    by (intro exI [of _ "[CreateTable, SelectActivityComments]"]) simp
  have m0: "marks_only s ?s0" by (simp add: marks_only_def list_all2_same)
  show "untouched ?I s (snd (up e s))"
  proof (cases "directus_comments s")
    case None
    then show ?thesis using untouched_trans [OF u0 fr(1)] by (simp add: up_unfold)
  next
    case (Some cs)
    then show ?thesis by (simp add: up_table_exists untouched_def sent_def)
  qed
  show "updates_within ?I s (snd (up e s))"
  proof (cases "directus_comments s")
    case None
    then show ?thesis using updates_within_trans [OF w0 fr(3)] by (simp add: up_unfold)
  next
    case (Some cs)
    then show ?thesis
      unfolding updates_within_def
      by (intro exI [of _ "[CreateTable]"]) (simp add: up_table_exists sent_def)
  qed
  show "marks_only s (snd (up e s))"
  proof (cases "directus_comments s")
    case None
    then show ?thesis using marks_only_trans [OF m0 fr(4)] by (simp add: up_unfold)
  next
    case (Some cs)
    then show ?thesis by (simp add: up_table_exists marks_only_def sent_def list_all2_same)
  qed
  show "\<exists>new. directus_comments (snd (up e s)) = Some new \<and>
             (\<forall>c\<in>set new. \<exists>r\<in>set ?rows. \<exists>u. c = new_comment e r u)"
    if none: "directus_comments s = None"
    using fr(2) unfolding copies_only_def by (auto simp: up_unfold [OF none])
qed

section \<open>Batches\<close>









section \<open>Order of processing\<close>

lemma updated_append: "updated (xs @ ys) = updated xs @ updated ys"
  by (induction xs rule: updated.induct) auto

lemma up_row_txn_updated:
  assumes "transaction (up_row e r) s = (res, s')"
  shows "\<exists>evs. journal s' = journal s @ evs \<and>
           (updated evs = [act_id r] \<or> (res \<noteq> None \<and> updated evs = []))"
proof (cases "accepted e r s")
  case True
  from up_row_txn_accepted [OF True] assms
  have "journal s' = journal s @ [Begin, InsertComment (randomUUID e (uuid_calls s)),
                                   UpdateActivity (act_id r), Commit]"
    by auto
  then show ?thesis by simp
next
  case False
  have failed: "res \<noteq> None"
    using False up_row_txn_ok [of e r s s'] assms by (cases res) auto
  show ?thesis
  proof (cases "insert_comment e (randomUUID e (uuid_calls s)) (act_collection r) (act_item r)
                  (act_comment r) (act_user r) (act_timestamp r)
                  (sent Begin s\<lparr>uuid_calls := Suc (uuid_calls s)\<rparr>)")
    case (Pair r1 s1)
    have j1: "journal s1 = journal s @ [Begin, InsertComment (randomUUID e (uuid_calls s))]"
      using Pair by (auto simp: insert_comment_def sent_def Let_def split: option.splits if_splits)
    show ?thesis
    proof (cases r1)
      case (Some err)
      with Pair assms have "journal s' = journal s1 @ [Rollback]"
        by (auto simp: transaction_def up_row_def sent_def Let_def)
      with j1 failed show ?thesis by simp
    next
      case None
      obtain r2 s2 where u: "update_activity e (act_id r)
               (\<lambda>r. r\<lparr>act_action := CREATE, act_collection := ''directus_comments'',
                       act_item := randomUUID e (uuid_calls s), act_comment := None\<rparr>) s1 = (r2, s2)"
        by (cases "update_activity e (act_id r)
               (\<lambda>r. r\<lparr>act_action := CREATE, act_collection := ''directus_comments'',
                       act_item := randomUUID e (uuid_calls s), act_comment := None\<rparr>) s1")
      have j2: "journal s2 = journal s1 @ [UpdateActivity (act_id r)]"
        using update_activity_effect [OF u] by simp
      have "journal s' = journal s2 @ [Commit] \<or> journal s' = journal s2 @ [Rollback]"
        using Pair None u assms
        by (cases r2) (auto simp: transaction_def up_row_def sent_def Let_def)
      with j1 j2 show ?thesis by auto
    qed
  qed
qed

lemma up_rows_updated:
  assumes "up_rows e rows s = (res, s')"
  shows "\<exists>evs k. journal s' = journal s @ evs \<and> k \<le> length rows \<and>
           updated evs = map act_id (take k rows) \<and> (res = None \<longrightarrow> k = length rows)"
  using assms
proof (induction rows arbitrary: s)
  case Nil
  then have "s' = s" "res = None" by simp_all
  then show ?case by (intro exI [of _ "[]"] exI [of _ 0]) simp
next
  case (Cons r rows)
  obtain r1 s1 where row: "transaction (up_row e r) s = (r1, s1)"
    by (cases "transaction (up_row e r) s")
  from up_row_txn_updated [OF row] obtain evs1 where
    all1: "journal s1 = journal s @ evs1 \<and>
           (updated evs1 = [act_id r] \<or> (r1 \<noteq> None \<and> updated evs1 = []))" ..
  then have j1: "journal s1 = journal s @ evs1"
    and u1: "updated evs1 = [act_id r] \<or> (r1 \<noteq> None \<and> updated evs1 = [])"
    by blast+
  show ?case
  proof (cases r1)
    case None
    with Cons.prems row have rest: "up_rows e rows s1 = (res, s')"
      by (simp add: up_rows_Cons)
    from Cons.IH [OF rest] obtain evs2 where
      "\<exists>k. journal s' = journal s1 @ evs2 \<and> k \<le> length rows \<and>
             updated evs2 = map act_id (take k rows) \<and> (res = None \<longrightarrow> k = length rows)" ..
    then obtain k where
      all2: "journal s' = journal s1 @ evs2 \<and> k \<le> length rows \<and>
             updated evs2 = map act_id (take k rows) \<and> (res = None \<longrightarrow> k = length rows)" ..
    from None u1 have "updated evs1 = [act_id r]" by simp
    with all2 j1 show ?thesis
      by (intro exI [of _ "evs1 @ evs2"] exI [of _ "Suc k"]) (simp add: updated_append)
  next
    case (Some err)
    with Cons.prems row have res: "res = Some err" "s' = s1"
      by (simp_all add: up_rows_Cons)
    from u1 show ?thesis
    proof
      assume "updated evs1 = [act_id r]"
      with j1 res show ?thesis
        by (intro exI [of _ evs1] exI [of _ "Suc 0"]) simp
    next
      assume "r1 \<noteq> None \<and> updated evs1 = []"
      with j1 res show ?thesis
        by (intro exI [of _ evs1] exI [of _ 0]) simp
    qed
  qed
qed

lemma map_key_sort_key: "map f (sort_key f xs) = sort (map f xs)"
  by (rule properties_for_sort [symmetric]) simp_all

lemma select_ids:
  "map act_id (select_activity_comments s) =
     sort (map act_id (filter (\<lambda>r. act_comment r \<noteq> None) (directus_activity s)))"
  by (simp add: select_activity_comments_def map_key_sort_key)

lemma up_updated:
  "\<exists>evs k. journal (snd (up e s)) = journal s @ evs \<and>
      updated evs = take k (sort (map act_id (filter (\<lambda>r. act_comment r \<noteq> None) (directus_activity s)))) \<and>
      (fst (up e s) = None \<longrightarrow> updated evs =
         sort (map act_id (filter (\<lambda>r. act_comment r \<noteq> None) (directus_activity s))))"
proof (cases "directus_comments s")
  case (Some cs)
  then show ?thesis
    by (intro exI [of _ "[CreateTable]"] exI [of _ 0]) (simp add: up_table_exists sent_def)
next
  case None
  let ?s0 = "s\<lparr>directus_comments := Some [],
                journal := journal s @ [CreateTable, SelectActivityComments]\<rparr>"
  let ?rows = "select_activity_comments s"
  from up_rows_updated [OF surjective_pairing, of e ?rows ?s0] obtain evs where
    "\<exists>k. journal (snd (up_rows e ?rows ?s0)) = journal ?s0 @ evs \<and> k \<le> length ?rows \<and>
         updated evs = map act_id (take k ?rows) \<and>
         (fst (up_rows e ?rows ?s0) = None \<longrightarrow> k = length ?rows)" ..
  then obtain k where
    all: "journal (snd (up_rows e ?rows ?s0)) = journal ?s0 @ evs \<and> k \<le> length ?rows \<and>
         updated evs = map act_id (take k ?rows) \<and>
         (fst (up_rows e ?rows ?s0) = None \<longrightarrow> k = length ?rows)" ..
  have "updated ([CreateTable, SelectActivityComments] @ evs) = take k (map act_id ?rows)"
    using all by (simp add: take_map)
  moreover have "fst (up e s) = None \<longrightarrow>
      updated ([CreateTable, SelectActivityComments] @ evs) = map act_id ?rows"
    using all by (auto simp: up_unfold [OF None])
  moreover have "journal (snd (up e s)) = journal s @ ([CreateTable, SelectActivityComments] @ evs)"
    using all by (simp add: up_unfold [OF None])
  ultimately have "journal (snd (up e s)) = journal s @ ([CreateTable, SelectActivityComments] @ evs) \<and>
      updated ([CreateTable, SelectActivityComments] @ evs) = take k (map act_id ?rows) \<and>
      (fst (up e s) = None \<longrightarrow>
         updated ([CreateTable, SelectActivityComments] @ evs) = map act_id ?rows)"
    by simp
  then have "\<exists>k. journal (snd (up e s)) = journal s @ ([CreateTable, SelectActivityComments] @ evs) \<and>
      updated ([CreateTable, SelectActivityComments] @ evs) = take k (map act_id ?rows) \<and>
      (fst (up e s) = None \<longrightarrow>
         updated ([CreateTable, SelectActivityComments] @ evs) = map act_id ?rows)"
    by (rule exI [of _ k])
  then show ?thesis
    unfolding select_ids [symmetric]
    by (rule exI [of _ "[CreateTable, SelectActivityComments] @ evs"])
qed

section \<open>Rows stored in another order\<close>

lemma for_each_sim:
  assumes "\<And>x a b. x \<in> set xs \<Longrightarrow> R a b \<Longrightarrow>
             fst (f x a) = fst (f x b) \<and> R (snd (f x a)) (snd (f x b))"
      and "R s t"
  shows "fst (for_each f xs s) = fst (for_each f xs t) \<and>
         R (snd (for_each f xs s)) (snd (for_each f xs t))"
  using assms
proof (induction xs arbitrary: s t)
  case Nil
  then show ?case by simp
next
  case (Cons x xs)
  have step: "fst (f x s) = fst (f x t)" "R (snd (f x s)) (snd (f x t))"
    using Cons.prems(1) [of x s t] Cons.prems(2) by simp_all
  show ?case
  proof (cases "fst (f x s)")
    case None
    then have a: "for_each f (x # xs) s = for_each f xs (snd (f x s))"
      by (cases "f x s") simp
    from None step(1) have b: "for_each f (x # xs) t = for_each f xs (snd (f x t))"
      by (cases "f x t") simp
    have "fst (for_each f xs (snd (f x s))) = fst (for_each f xs (snd (f x t))) \<and>
          R (snd (for_each f xs (snd (f x s)))) (snd (for_each f xs (snd (f x t))))"
      by (rule Cons.IH [OF _ step(2)]) (simp add: Cons.prems(1))
    then show ?thesis by (simp only: a b)
  next
    case (Some err)
    then have a: "for_each f (x # xs) s = f x s"
      by (cases "f x s") simp
    from Some step(1) have b: "for_each f (x # xs) t = f x t"
      by (cases "f x t") simp
    show ?thesis using step by (simp only: a b)
  qed
qed

lemma up_row_txn_reordered:
  assumes "mset B = mset (directus_activity s)"
  shows "fst (transaction (up_row e r) (s\<lparr>directus_activity := B\<rparr>)) = fst (transaction (up_row e r) s) \<and>
         reordered (snd (transaction (up_row e r) s))
                   (snd (transaction (up_row e r) (s\<lparr>directus_activity := B\<rparr>)))"
proof -
  have set_eq: "set B = set (directus_activity s)" using assms by (rule mset_eq_setD)
  have map_eq: "mset (map g B) = mset (map g (directus_activity s))" for g
    using assms by (metis mset_map)
  show ?thesis
    using set_eq
    by (auto simp: transaction_def up_row_def insert_comment_def update_activity_def sent_def
          Let_def list_all_iff reordered_def map_eq assms
          split: option.splits prod.splits)
qed

lemma select_reordered:
  assumes "mset B = mset (directus_activity s)"
      and "distinct (map act_id (directus_activity s))"
  shows "select_activity_comments (s\<lparr>directus_activity := B\<rparr>) = select_activity_comments s"
proof -
  let ?P = "\<lambda>r. act_comment r \<noteq> None"
  let ?A = "directus_activity s"
  let ?L1 = "sort_key act_id (filter ?P ?A)"
  let ?L2 = "sort_key act_id (filter ?P B)"
  have "mset (filter ?P B) = mset (filter ?P ?A)"
    using assms(1) by (simp only: mset_filter)
  then have m: "mset (map act_id (filter ?P B)) = mset (map act_id (filter ?P ?A))"
    by (metis mset_map)
  have "mset (sort (map act_id (filter ?P ?A))) = mset (map act_id (filter ?P B))"
    using m by simp
  then have "sort (map act_id (filter ?P B)) = sort (map act_id (filter ?P ?A))"
    by (rule properties_for_sort) simp
  then have ids: "map act_id ?L2 = map act_id ?L1"
    by (simp add: map_key_sort_key)
  have set_eq: "set B = set ?A" using assms(1) by (rule mset_eq_setD)
  have "inj_on act_id (set ?A)" using assms(2) by (simp add: distinct_map)
  then have "inj_on act_id (set ?L2 \<union> set ?L1)"
    by (rule inj_on_subset) (auto simp: set_eq)
  with ids have "?L2 = ?L1" by (simp add: inj_on_map_eq_map)
  then show ?thesis by (simp add: select_activity_comments_def)
qed

lemma up_reordered:
  assumes "mset B = mset (directus_activity s)"
      and "distinct (map act_id (directus_activity s))"
  shows "fst (up e (s\<lparr>directus_activity := B\<rparr>)) = fst (up e s) \<and>
         reordered (snd (up e s)) (snd (up e (s\<lparr>directus_activity := B\<rparr>)))"
proof (cases "directus_comments s")
  case (Some cs)
  then have t: "directus_comments (s\<lparr>directus_activity := B\<rparr>) = Some cs" by simp
  show ?thesis
    unfolding up_table_exists [OF Some] up_table_exists [OF t]
    using assms(1) by (simp add: reordered_def sent_def)
next
  case None
  let ?t = "s\<lparr>directus_activity := B\<rparr>"
  let ?rows = "select_activity_comments s"
  let ?sz = "s\<lparr>directus_comments := Some [],
                journal := journal s @ [CreateTable, SelectActivityComments]\<rparr>"
  let ?tz = "?t\<lparr>directus_comments := Some [],
                journal := journal ?t @ [CreateTable, SelectActivityComments]\<rparr>"
  have nt: "directus_comments ?t = None" using None by simp
  have r0: "reordered ?sz ?tz" using assms(1) by (simp add: reordered_def)
  have step: "fst (transaction (up_row e x) a) = fst (transaction (up_row e x) b) \<and>
              reordered (snd (transaction (up_row e x) a)) (snd (transaction (up_row e x) b))"
    if "reordered a b" for x a b
  proof -
    from that have m: "mset (directus_activity b) = mset (directus_activity a)"
      and b: "b = a\<lparr>directus_activity := directus_activity b\<rparr>"
      by (simp_all add: reordered_def)
    have "fst (transaction (up_row e x) b) = fst (transaction (up_row e x) a) \<and>
          reordered (snd (transaction (up_row e x) a)) (snd (transaction (up_row e x) b))"
      using up_row_txn_reordered [OF m, of e x] unfolding b [symmetric] .
    then show ?thesis by simp
  qed
  have "fst (up_rows e ?rows ?sz) = fst (up_rows e ?rows ?tz) \<and>
        reordered (snd (up_rows e ?rows ?sz)) (snd (up_rows e ?rows ?tz))"
    unfolding up_rows_def
    by (rule for_each_sim [where R = reordered, OF _ r0]) (rule step)
  then show ?thesis
    by (simp add: up_unfold [OF None] up_unfold [OF nt] select_reordered [OF assms])
qed

lemma shuffled_db_fields:
  "directus_collections shuffled_db = {''articles''}"
  "directus_users shuffled_db = {''u1''}"
  "directus_activity shuffled_db = [demo_row 3 ''c'', demo_row 1 ''a'', demo_row 2 ''b'']"
  "directus_comments shuffled_db = None"
  "journal shuffled_db = []"
  "uuid_calls shuffled_db = 0"
  by (simp_all add: shuffled_db_def)

section \<open>The claims\<close>

text \<open>
  C1 (round trip). Take a database in which \<open>directus_comments\<close> does not exist yet and
  the identifiers of \<open>directus_activity\<close> are unique. Write \<open>pairs e s\<close> for the commented
  rows, in the order of processing, each with the identifier \<open>randomUUID()\<close> returns
  for it in the run. Suppose these identifiers are pairwise different and none of them
  is already the \<open>item\<close> of an activity row, every commented row points to an
  existing collection and user, and \<open>directus_activity\<close> accepts the two rows written
  for each pair \<open>(r, u)\<close>: the cross-reference of \<open>r\<close> to \<open>u\<close> that \<open>up\<close> writes, and
  \<open>r\<close> with action \<open>COMMENT\<close> that \<open>down\<close> writes. Then \<open>up\<close> completes, \<open>down\<close> run
  right after it completes and drops the table, and the activity table is the
  original one, row by row and in place, but for the action of the commented rows,
  which is \<open>COMMENT\<close>: each commented row keeps its identifier, collection, item,
  comment, user and timestamp, and no row is added.
\<close>

theorem up_then_down_restores:
  assumes "directus_comments s = None"
      and "distinct (map act_id (directus_activity s))"
      and "distinct (map snd (pairs e s))"
      and "\<forall>x\<in>set (directus_activity s). act_item x \<notin> set (map snd (pairs e s))"
      and "\<forall>r\<in>set (directus_activity s). act_comment r \<noteq> None \<longrightarrow>
             act_collection r \<in> directus_collections s \<and>
             (case act_user r of None \<Rightarrow> True | Some u \<Rightarrow> u \<in> directus_users s)"
      and "\<forall>(r, u)\<in>set (pairs e s).
             activity_ok e (cross_reference u r) \<and> activity_ok e (r\<lparr>act_action := COMMENT\<rparr>)"
  shows "fst (up e s) = None \<and> fst (down e (snd (up e s))) = None \<and>
         directus_comments (snd (down e (snd (up e s)))) = None \<and>
         directus_activity (snd (down e (snd (up e s)))) =
           map (\<lambda>r. if act_comment r \<noteq> None then r\<lparr>act_action := COMMENT\<rparr> else r)
             (directus_activity s)"
proof -
  have ok1: "\<forall>(r, u)\<in>set (pairs e s). activity_ok e (cross_reference u r)"
    using assms(6) by auto
  have ok2: "\<forall>r\<in>set (directus_activity s). act_comment r \<noteq> None \<longrightarrow>
             activity_ok e (r\<lparr>act_action := COMMENT\<rparr>)"
  proof (intro ballI impI)
    fix r assume "r \<in> set (directus_activity s)" and "act_comment r \<noteq> None"
    then obtain u where "(r, u) \<in> set (pairs e s)" using pairs_cover by blast
    with assms(6) show "activity_ok e (r\<lparr>act_action := COMMENT\<rparr>)" by auto
  qed
  have done_up: "fst (up e s) = None"
    by (rule up_completes [OF assms(1,2,5,3) ok1])
  then have up: "up e s = (None, snd (up e s))"
    by (simp add: prod_eq_iff)
  from down_after_up [OF up assms(2,3,4) ok2] done_up
  show ?thesis by simp
qed

theorem up_then_down_restores_witness:
  "fst (up varchar_env demo_db) = None \<and>
   fst (down varchar_env (snd (up varchar_env demo_db))) = None \<and>
   directus_comments (snd (down varchar_env (snd (up varchar_env demo_db)))) = None \<and>
   directus_activity (snd (down varchar_env (snd (up varchar_env demo_db)))) =
     [\<lparr>act_id = 5, act_action = COMMENT, act_collection = ''articles'', act_item = ''42'',
       act_comment = Some ''nice'', act_user = Some ''u1'', act_timestamp = Some 1600000000\<rparr>,
      \<lparr>act_id = 2, act_action = CREATE, act_collection = ''articles'', act_item = ''42'',
       act_comment = None, act_user = Some ''u1'', act_timestamp = Some 1500000000\<rparr>,
      \<lparr>act_id = 3, act_action = COMMENT, act_collection = ''articles'', act_item = ''7'',
       act_comment = Some ''first'', act_user = None, act_timestamp = Some 1550000000\<rparr>]"
proof -
  have ps: "pairs varchar_env demo_db =
     [(\<lparr>act_id = 3, act_action = COMMENT, act_collection = ''articles'', act_item = ''7'',
        act_comment = Some ''first'', act_user = None, act_timestamp = Some 1550000000\<rparr>, ''uuid-''),
      (\<lparr>act_id = 5, act_action = COMMENT, act_collection = ''articles'', act_item = ''42'',
        act_comment = Some ''nice'', act_user = Some ''u1'', act_timestamp = Some 1600000000\<rparr>,
       ''uuid-x'')]"
    by (simp add: pairs_def select_activity_comments_def demo_db_def drawn_def varchar_env_def
          demo_env_def upt_rec)
  have 1: "directus_comments demo_db = None" by (simp add: demo_db_def)
  have 2: "distinct (map act_id (directus_activity demo_db))" by (simp add: demo_db_def)
  have 3: "distinct (map snd (pairs varchar_env demo_db))"
    unfolding ps by simp
  have 4: "\<forall>x\<in>set (directus_activity demo_db). act_item x \<notin> set (map snd (pairs varchar_env demo_db))"
    unfolding ps by (simp add: demo_db_def)
  have 5: "\<forall>r\<in>set (directus_activity demo_db). act_comment r \<noteq> None \<longrightarrow>
             act_collection r \<in> directus_collections demo_db \<and>
             (case act_user r of None \<Rightarrow> True | Some u \<Rightarrow> u \<in> directus_users demo_db)"
    by (simp add: demo_db_def)
  have 6: "\<forall>(r, u)\<in>set (pairs varchar_env demo_db).
             activity_ok varchar_env (cross_reference u r) \<and>
             activity_ok varchar_env (r\<lparr>act_action := COMMENT\<rparr>)"
    unfolding ps by (simp add: varchar_env_def demo_env_def cross_reference_def)
  from up_then_down_restores [OF 1 2 3 4 5 6]
  show ?thesis by (simp add: demo_db_def)
qed

text \<open>
  C2 (forward transform of one row). Let \<open>up\<close> complete on a database whose activity
  identifiers are unique, and let \<open>r\<close> be a row of \<open>directus_activity\<close> with a comment,
  stored at position \<open>i\<close>. Then one of the identifiers \<open>randomUUID()\<close> returned in the
  run, \<open>u\<close>, is the key of a row of \<open>directus_comments\<close> that copies the collection,
  item and comment of \<open>r\<close>, with \<open>user_created\<close> the user and \<open>date_created\<close> the
  timestamp of \<open>r\<close>; the keys of the table are pairwise different and the table has
  one row per commented activity row; the activity row at position \<open>i\<close> is \<open>r\<close> with
  action \<open>CREATE\<close>, collection \<open>directus_comments\<close>, item \<open>u\<close> and no comment; and
  no other commented row is given the item \<open>u\<close>.
\<close>

theorem up_copies_and_marks:
  assumes "up e s = (None, s')"
      and "distinct (map act_id (directus_activity s))"
      and "i < length (directus_activity s)"
      and "directus_activity s ! i = r"
      and "act_comment r \<noteq> None"
  shows "\<exists>u cs. directus_comments s' = Some cs \<and> distinct (map c_id cs) \<and>
           length cs = length (filter (\<lambda>r. act_comment r \<noteq> None) (directus_activity s)) \<and>
           u \<in> set (drawn e (uuid_calls s) (length cs)) \<and>
           \<lparr>c_id = u, c_collection = act_collection r, c_item = act_item r,
            c_comment = act_comment r, c_date_created = act_timestamp r,
            c_date_updated = Some (now e), c_user_created = act_user r,
            c_user_updated = None\<rparr> \<in> set cs \<and>
           length (directus_activity s') = length (directus_activity s) \<and>
           directus_activity s' ! i =
             r\<lparr>act_action := CREATE, act_collection := ''directus_comments'', act_item := u,
               act_comment := None\<rparr> \<and>
           (\<forall>k<length (directus_activity s). k \<noteq> i \<longrightarrow>
              act_comment (directus_activity s ! k) \<noteq> None \<longrightarrow>
              act_item (directus_activity s' ! k) \<noteq> u)"
proof -
  let ?ps = "pairs e s"
  let ?cs = "map (\<lambda>(r, u). new_comment e r u) ?ps"
  let ?A = "directus_activity s"
  from up_result [OF assms(1,2)]
  have s': "s' = s\<lparr>directus_activity := map (forward e s) ?A,
                directus_comments := Some ?cs,
                journal := journal s @ [CreateTable, SelectActivityComments] @
                             concat (map (\<lambda>(r, u). txn_block r u) ?ps),
                uuid_calls := uuid_calls s + length ?ps\<rparr>"
    by simp
  have act: "directus_activity s' = map (forward e s) ?A"
    by (subst s') simp
  have com: "directus_comments s' = Some ?cs"
    by (subst s') simp
  have r_in: "r \<in> set ?A" using assms(3,4) by auto
  from pairs_cover [OF r_in assms(5)] obtain u where in_ps: "(r, u) \<in> set ?ps" by blast
  have len: "length ?cs = length (filter (\<lambda>r. act_comment r \<noteq> None) ?A)"
    by (simp add: pairs_def length_select)
  have uu: "distinct (map snd ?ps)" by (rule up_distinct_uuids [OF assms(1)])
  have d: "distinct (map c_id ?cs)"
    using uu by (simp only: c_id_new_comments)
  have u_in: "u \<in> set (drawn e (uuid_calls s) (length ?cs))"
    using pairs_member [OF in_ps] by (simp add: map_snd_pairs pairs_def)
  have c_in: "new_comment e r u \<in> set ?cs"
    using in_ps by force
  have row: "directus_activity s' ! i = cross_reference u r"
    using assms(3,4) forward_pair [OF assms(2) in_ps] by (simp add: act)
  have dA: "distinct ?A" using assms(2) by (simp add: distinct_map)
  have others: "\<forall>k<length ?A. k \<noteq> i \<longrightarrow> act_comment (?A ! k) \<noteq> None \<longrightarrow>
                  act_item (directus_activity s' ! k) \<noteq> u"
  proof (intro allI impI)
    fix k assume k: "k < length ?A" "k \<noteq> i" "act_comment (?A ! k) \<noteq> None"
    have k_in: "?A ! k \<in> set ?A" using k(1) by simp
    from pairs_cover [OF k_in k(3)] obtain u' where in': "(?A ! k, u') \<in> set ?ps" by blast
    have "directus_activity s' ! k = cross_reference u' (?A ! k)"
      using k(1) forward_pair [OF assms(2) in'] by (simp add: act)
    then have item: "act_item (directus_activity s' ! k) = u'"
      by (simp add: cross_reference_def)
    show "act_item (directus_activity s' ! k) \<noteq> u"
    proof
      assume "act_item (directus_activity s' ! k) = u"
      with item have "(?A ! k, u) \<in> set ?ps" using in' by simp
      from same_uuid_same_row [OF uu in_ps this] have "?A ! i = ?A ! k"
        using assms(4) by simp
      with dA k(1) assms(3) have "i = k" by (simp add: nth_eq_iff_index_eq)
      with k(2) show False by simp
    qed
  qed
  have "\<exists>u cs. directus_comments s' = Some cs \<and> distinct (map c_id cs) \<and>
           length cs = length (filter (\<lambda>r. act_comment r \<noteq> None) ?A) \<and>
           u \<in> set (drawn e (uuid_calls s) (length cs)) \<and>
           new_comment e r u \<in> set cs \<and>
           length (directus_activity s') = length ?A \<and>
           directus_activity s' ! i = cross_reference u r \<and>
           (\<forall>k<length ?A. k \<noteq> i \<longrightarrow> act_comment (?A ! k) \<noteq> None \<longrightarrow>
              act_item (directus_activity s' ! k) \<noteq> u)"
    using com d len u_in c_in row act others
    by (intro exI [of _ u] exI [of _ ?cs]) simp
  then show ?thesis
    by (simp add: new_comment_def cross_reference_def)
qed


theorem up_copies_and_marks_witness:
  "\<exists>u cs. directus_comments (snd (up demo_env demo_db)) = Some cs \<and> distinct (map c_id cs) \<and>
      length cs = 2 \<and> u \<in> set (drawn demo_env 0 (length cs)) \<and>
      \<lparr>c_id = u, c_collection = ''articles'', c_item = ''42'', c_comment = Some ''nice'',
       c_date_created = Some 1600000000, c_date_updated = Some 1700000000,
       c_user_created = Some ''u1'', c_user_updated = None\<rparr> \<in> set cs \<and>
      length (directus_activity (snd (up demo_env demo_db))) = 3 \<and>
      directus_activity (snd (up demo_env demo_db)) ! 0 =
        \<lparr>act_id = 5, act_action = CREATE, act_collection = ''directus_comments'',
         act_item = u, act_comment = None, act_user = Some ''u1'',
         act_timestamp = Some 1600000000\<rparr> \<and>
      act_item (directus_activity (snd (up demo_env demo_db)) ! 2) \<noteq> u"
proof -
  let ?r = "\<lparr>act_id = 5, act_action = COMMENT, act_collection = ''articles'', act_item = ''42'',
          act_comment = Some ''nice'', act_user = Some ''u1'', act_timestamp = Some 1600000000\<rparr>"
  have "fst (up demo_env demo_db) = None" by code_simp
  then have 1: "up demo_env demo_db = (None, snd (up demo_env demo_db))"
    by (simp add: prod_eq_iff)
  have 2: "distinct (map act_id (directus_activity demo_db))" by (simp add: demo_db_fields)
  have 3: "0 < length (directus_activity demo_db)" by (simp add: demo_db_fields)
  have 4: "directus_activity demo_db ! 0 = ?r" by (simp add: demo_db_fields)
  have 5: "act_comment ?r \<noteq> None" by simp
  from up_copies_and_marks [OF 1 2 3 4 5] obtain u cs where
    all: "directus_comments (snd (up demo_env demo_db)) = Some cs \<and> distinct (map c_id cs) \<and>
           length cs = length (filter (\<lambda>r. act_comment r \<noteq> None) (directus_activity demo_db)) \<and>
           u \<in> set (drawn demo_env (uuid_calls demo_db) (length cs)) \<and>
           \<lparr>c_id = u, c_collection = act_collection ?r, c_item = act_item ?r,
            c_comment = act_comment ?r, c_date_created = act_timestamp ?r,
            c_date_updated = Some (now demo_env), c_user_created = act_user ?r,
            c_user_updated = None\<rparr> \<in> set cs \<and>
           length (directus_activity (snd (up demo_env demo_db))) = length (directus_activity demo_db) \<and>
           directus_activity (snd (up demo_env demo_db)) ! 0 =
             ?r\<lparr>act_action := CREATE, act_collection := ''directus_comments'', act_item := u,
               act_comment := None\<rparr> \<and>
           (\<forall>k<length (directus_activity demo_db). k \<noteq> 0 \<longrightarrow>
              act_comment (directus_activity demo_db ! k) \<noteq> None \<longrightarrow>
              act_item (directus_activity (snd (up demo_env demo_db)) ! k) \<noteq> u)"
    by blast
  let ?s' = "snd (up demo_env demo_db)"
  from all have a1: "directus_comments ?s' = Some cs" and a2: "distinct (map c_id cs)"
    by blast+
  from all have "length cs =
      length (filter (\<lambda>r. act_comment r \<noteq> None) (directus_activity demo_db))"
    by blast
  then have a3: "length cs = 2" by (simp add: demo_db_fields)
  from all have "u \<in> set (drawn demo_env (uuid_calls demo_db) (length cs))" by blast
  then have a4: "u \<in> set (drawn demo_env 0 (length cs))" by (simp add: demo_db_fields)
  from all have "\<lparr>c_id = u, c_collection = act_collection ?r, c_item = act_item ?r,
            c_comment = act_comment ?r, c_date_created = act_timestamp ?r,
            c_date_updated = Some (now demo_env), c_user_created = act_user ?r,
            c_user_updated = None\<rparr> \<in> set cs"
    by blast
  then have a5: "\<lparr>c_id = u, c_collection = ''articles'', c_item = ''42'',
       c_comment = Some ''nice'', c_date_created = Some 1600000000,
       c_date_updated = Some 1700000000, c_user_created = Some ''u1'',
       c_user_updated = None\<rparr> \<in> set cs"
    by (simp add: demo_env_fields)
  from all have "length (directus_activity ?s') = length (directus_activity demo_db)"
    by blast
  then have a6: "length (directus_activity ?s') = 3" by (simp add: demo_db_fields)
  from all have "directus_activity ?s' ! 0 =
             ?r\<lparr>act_action := CREATE, act_collection := ''directus_comments'', act_item := u,
               act_comment := None\<rparr>"
    by blast
  then have a7: "directus_activity ?s' ! 0 =
        \<lparr>act_id = 5, act_action = CREATE, act_collection = ''directus_comments'',
         act_item = u, act_comment = None, act_user = Some ''u1'',
         act_timestamp = Some 1600000000\<rparr>"
    by simp
  from all have "\<forall>k<length (directus_activity demo_db). k \<noteq> 0 \<longrightarrow>
              act_comment (directus_activity demo_db ! k) \<noteq> None \<longrightarrow>
              act_item (directus_activity ?s' ! k) \<noteq> u"
    by blast
  then have "2 < length (directus_activity demo_db) \<longrightarrow> (2::nat) \<noteq> 0 \<longrightarrow>
              act_comment (directus_activity demo_db ! 2) \<noteq> None \<longrightarrow>
              act_item (directus_activity ?s' ! 2) \<noteq> u"
    by (rule spec)
  then have a8: "act_item (directus_activity ?s' ! 2) \<noteq> u"
    by (simp add: demo_db_fields)
  from a1 a2 a3 a4 a5 a6 a7 a8 show ?thesis by blast
qed

text \<open>
  C3 (priority of the reconciliation in \<open>down\<close>). For one row \<open>c\<close> of
  \<open>directus_comments\<close>, the loop body first looks for an activity row with collection
  \<open>directus_comments\<close>, item \<open>c.id\<close> and action \<open>CREATE\<close>; when there is one, it rewrites
  the row found (action \<open>COMMENT\<close>, the collection, item and text of \<open>c\<close>). Only when
  there is none it looks for a row with the collection and item of \<open>c\<close> and action
  \<open>COMMENT\<close>, and overwrites the comment of the row found. Only when there is neither it
  inserts a new row. In every case exactly one writing statement is sent, and
  \<open>directus_comments\<close> is left as it is.
\<close>

theorem down_row_priority:
  assumes "down_row e c s = (res, s')"
  shows "((\<exists>x\<in>set (directus_activity s). refers_to (c_id c) x) \<longrightarrow>
            (\<exists>m\<in>set (directus_activity s). refers_to (c_id c) m \<and>
               journal s' = journal s @ [SelectMigrated (c_id c), UpdateActivity (act_id m)] \<and>
               (res = None \<longrightarrow> directus_activity s' =
                  map (\<lambda>r. if act_id r = act_id m
                            then r\<lparr>act_action := COMMENT, act_collection := c_collection c,
                                   act_item := c_item c, act_comment := c_comment c\<rparr>
                            else r) (directus_activity s)))) \<and>
         ((\<forall>x\<in>set (directus_activity s). \<not> refers_to (c_id c) x) \<and>
          (\<exists>x\<in>set (directus_activity s). shadows c x) \<longrightarrow>
            (\<exists>m\<in>set (directus_activity s). shadows c m \<and>
               journal s' = journal s @ [SelectMigrated (c_id c),
                  SelectUnmigrated (c_collection c) (c_item c), UpdateActivity (act_id m)] \<and>
               (res = None \<longrightarrow> directus_activity s' =
                  map (\<lambda>r. if act_id r = act_id m then r\<lparr>act_comment := c_comment c\<rparr> else r)
                    (directus_activity s)))) \<and>
         ((\<forall>x\<in>set (directus_activity s). \<not> refers_to (c_id c) x) \<and>
          (\<forall>x\<in>set (directus_activity s). \<not> shadows c x) \<longrightarrow>
            journal s' = journal s @ [SelectMigrated (c_id c),
                  SelectUnmigrated (c_collection c) (c_item c), InsertActivity] \<and>
            (res = None \<longrightarrow> directus_activity s' =
               directus_activity s @
                 [\<lparr>act_id = next_id (directus_activity s), act_action = COMMENT,
                   act_collection = c_collection c, act_item = c_item c,
                   act_comment = c_comment c, act_user = c_user_created c,
                   act_timestamp = c_date_created c\<rparr>])) \<and>
         length (writes (journal s')) = Suc (length (writes (journal s))) \<and>
         (res \<noteq> None \<longrightarrow> directus_activity s' = directus_activity s) \<and>
         directus_comments s' = directus_comments s"
proof -
  note cases = down_row_cases [OF assms, unfolded by_id_def restored_def [abs_def] fabricated_def]
  have one: "length (writes (journal s')) = Suc (length (writes (journal s)))"
  proof (cases "\<exists>x\<in>set (directus_activity s). refers_to (c_id c) x")
    case True
    with cases show ?thesis by (auto simp: writes_def)
  next
    case False
    then show ?thesis
      using cases by (cases "\<exists>x\<in>set (directus_activity s). shadows c x") (auto simp: writes_def)
  qed
  from cases one show ?thesis by blast
qed

theorem down_row_priority_witness:
  "directus_activity (snd (down_row demo_env demo_comment
       (demo_with [demo_other, demo_shadow, demo_reference] [demo_comment]))) =
     [demo_other, demo_shadow,
      demo_reference\<lparr>act_action := COMMENT, act_collection := ''articles'',
                      act_item := ''42'', act_comment := Some ''nice''\<rparr>] \<and>
   directus_activity (snd (down_row demo_env demo_comment
       (demo_with [demo_other, demo_shadow] [demo_comment]))) =
     [demo_other, demo_shadow\<lparr>act_comment := Some ''nice''\<rparr>] \<and>
   directus_activity (snd (down_row demo_env demo_comment
       (demo_with [demo_other] [demo_comment]))) =
     [demo_other,
      \<lparr>act_id = 3, act_action = COMMENT, act_collection = ''articles'', act_item = ''42'',
       act_comment = Some ''nice'', act_user = Some ''u1'',
       act_timestamp = Some 1600000000\<rparr>]"
proof -
  let ?sa = "demo_with [demo_other, demo_shadow, demo_reference] [demo_comment]"
  let ?sb = "demo_with [demo_other, demo_shadow] [demo_comment]"
  let ?sc = "demo_with [demo_other] [demo_comment]"
  have ra: "fst (down_row demo_env demo_comment ?sa) = None" by code_simp
  have rb: "fst (down_row demo_env demo_comment ?sb) = None" by code_simp
  have rc: "fst (down_row demo_env demo_comment ?sc) = None" by code_simp
  have a: "directus_activity (snd (down_row demo_env demo_comment ?sa)) =
     [demo_other, demo_shadow,
      demo_reference\<lparr>act_action := COMMENT, act_collection := ''articles'',
                      act_item := ''42'', act_comment := Some ''nice''\<rparr>]"
    using down_row_priority [where e = demo_env and c = demo_comment and s = "?sa", OF surjective_pairing] ra
    by (simp add: demo_rows refers_to_def shadows_def)
  have b: "directus_activity (snd (down_row demo_env demo_comment ?sb)) =
     [demo_other, demo_shadow\<lparr>act_comment := Some ''nice''\<rparr>]"
    using down_row_priority [where e = demo_env and c = demo_comment and s = "?sb", OF surjective_pairing] rb
    by (simp add: demo_rows refers_to_def shadows_def)
  have c: "directus_activity (snd (down_row demo_env demo_comment ?sc)) =
     [demo_other,
      \<lparr>act_id = 3, act_action = COMMENT, act_collection = ''articles'', act_item = ''42'',
       act_comment = Some ''nice'', act_user = Some ''u1'',
       act_timestamp = Some 1600000000\<rparr>]"
    using down_row_priority [where e = demo_env and c = demo_comment and s = "?sc", OF surjective_pairing] rc
    by (simp add: demo_rows refers_to_def shadows_def next_id_def)
  from a b c show ?thesis by blast
qed

text \<open>
  C4 (the drop comes last). Let \<open>directus_comments\<close> exist with the rows \<open>cs\<close>.
  When \<open>down\<close> completes, the loop has reconciled every row of \<open>cs\<close> without error,
  the table is gone, \<open>DROP TABLE\<close> is the last statement sent and the only one of its
  kind, and before it the reconciliation was started, in order, for every row of
  \<open>cs\<close>, with one writing statement per row. When \<open>down\<close> fails, the failure is that
  of the reconciliation of a row \<open>j\<close>, reached after the \<open>j\<close> rows before it were
  reconciled without error (the rows after it are not reached), no \<open>DROP TABLE\<close> was
  sent, and the table still holds all of \<open>cs\<close>. And the error of a row is never
  passed over: whenever the loop has reconciled the first \<open>j\<close> rows without error and
  the reconciliation of the next row raises an error, \<open>down\<close> fails with that error
  and ends in the database that row left, the table still holds all of \<open>cs\<close>, and
  no \<open>DROP TABLE\<close> is among the statements sent in the run.
\<close>

theorem down_drops_after_all_rows:
  assumes "directus_comments s = Some cs" and "down e s = (res, s')"
  shows "(res = None \<longrightarrow>
            directus_comments s' = None \<and>
            (\<exists>evs. journal s' = journal s @ [SelectComments] @ evs @ [DropTable] \<and>
                   DropTable \<notin> set evs \<and> reconciled evs = map c_id cs \<and>
                   length (writes evs) = length cs) \<and>
            (\<exists>t. down_rows e cs (sent SelectComments s) = (None, t) \<and> dropTable t = (res, s'))) \<and>
         (res \<noteq> None \<longrightarrow>
            directus_comments s' = Some cs \<and>
            (\<exists>evs. journal s' = journal s @ [SelectComments] @ evs \<and> DropTable \<notin> set evs \<and>
               (\<exists>j<length cs. reconciled evs = map c_id (take (Suc j) cs) \<and>
                  (\<exists>t. down_rows e (take j cs) (sent SelectComments s) = (None, t) \<and>
                       down_row e (cs ! j) t = (res, s'))))) \<and>
         (\<forall>j<length cs. \<forall>t err t'.
            down_rows e (take j cs) (sent SelectComments s) = (None, t) \<longrightarrow>
            down_row e (cs ! j) t = (Some err, t') \<longrightarrow>
              res = Some err \<and> s' = t' \<and> directus_comments s' = Some cs \<and>
              DropTable \<notin> set (drop (length (journal s)) (journal s')))"
proof -
  let ?t = "s\<lparr>journal := journal s @ [SelectComments]\<rparr>"
  have st: "sent SelectComments s = ?t" by (simp add: sent_def)
  have stop: "\<forall>j<length cs. \<forall>t err t'.
            down_rows e (take j cs) (sent SelectComments s) = (None, t) \<longrightarrow>
            down_row e (cs ! j) t = (Some err, t') \<longrightarrow>
              res = Some err \<and> s' = t' \<and> directus_comments s' = Some cs \<and>
              DropTable \<notin> set (drop (length (journal s)) (journal s'))"
  proof (intro allI impI)
    fix j t err t'
    assume j: "j < length cs"
      and pre: "down_rows e (take j cs) (sent SelectComments s) = (None, t)"
      and row: "down_row e (cs ! j) t = (Some err, t')"
    note D = down_stops_at [OF assms(1) j pre row]
    from D(1) assms(2) have eq: "res = Some err" "s' = t'" by simp_all
    from D(3) obtain evs where
      ev: "journal t' = journal s @ [SelectComments] @ evs \<and> DropTable \<notin> set evs \<and>
           reconciled evs = map c_id (take (Suc j) cs)" ..
    then have "DropTable \<notin> set (drop (length (journal s)) (journal t'))" by simp
    with eq D(2) show "res = Some err \<and> s' = t' \<and> directus_comments s' = Some cs \<and>
              DropTable \<notin> set (drop (length (journal s)) (journal s'))"
      by simp
  qed
  have bad: "res \<noteq> None \<longrightarrow>
            directus_comments s' = Some cs \<and>
            (\<exists>evs. journal s' = journal s @ [SelectComments] @ evs \<and> DropTable \<notin> set evs \<and>
               (\<exists>j<length cs. reconciled evs = map c_id (take (Suc j) cs) \<and>
                  (\<exists>t. down_rows e (take j cs) (sent SelectComments s) = (None, t) \<and>
                       down_row e (cs ! j) t = (res, s'))))"
  proof
    assume "res \<noteq> None"
    then obtain err where res: "res = Some err" by auto
    from assms(2) have fail: "down e s = (Some err, s')" by (simp add: res)
    from down_failure_row [OF assms(1) fail] obtain j t where j: "j < length cs"
      and pre: "down_rows e (take j cs) (sent SelectComments s) = (None, t)"
      and row: "down_row e (cs ! j) t = (Some err, s')"
      by blast
    note D = down_stops_at [OF assms(1) j pre row]
    from D(3) obtain evs where
      ev: "journal s' = journal s @ [SelectComments] @ evs \<and> DropTable \<notin> set evs \<and>
           reconciled evs = map c_id (take (Suc j) cs)" ..
    have inner: "\<exists>j<length cs. reconciled evs = map c_id (take (Suc j) cs) \<and>
                  (\<exists>t. down_rows e (take j cs) (sent SelectComments s) = (None, t) \<and>
                       down_row e (cs ! j) t = (res, s'))"
      using j ev pre row unfolding res by blast
    from ev inner have "\<exists>evs. journal s' = journal s @ [SelectComments] @ evs \<and> DropTable \<notin> set evs \<and>
               (\<exists>j<length cs. reconciled evs = map c_id (take (Suc j) cs) \<and>
                  (\<exists>t. down_rows e (take j cs) (sent SelectComments s) = (None, t) \<and>
                       down_row e (cs ! j) t = (res, s')))"
      by (intro exI [of _ evs]) simp
    with D(2) show "directus_comments s' = Some cs \<and>
            (\<exists>evs. journal s' = journal s @ [SelectComments] @ evs \<and> DropTable \<notin> set evs \<and>
               (\<exists>j<length cs. reconciled evs = map c_id (take (Suc j) cs) \<and>
                  (\<exists>t. down_rows e (take j cs) (sent SelectComments s) = (None, t) \<and>
                       down_row e (cs ! j) t = (res, s'))))"
      by (rule conjI)
  qed
  have ok: "res = None \<longrightarrow>
            directus_comments s' = None \<and>
            (\<exists>evs. journal s' = journal s @ [SelectComments] @ evs @ [DropTable] \<and>
                   DropTable \<notin> set evs \<and> reconciled evs = map c_id cs \<and>
                   length (writes evs) = length cs) \<and>
            (\<exists>t. down_rows e cs (sent SelectComments s) = (None, t) \<and> dropTable t = (res, s'))"
  proof
    assume rn: "res = None"
    obtain r1 s1 where loop: "down_rows e cs ?t = (r1, s1)" by (cases "down_rows e cs ?t")
    from down_rows_journal [OF loop] obtain evs where
      all1: "journal s1 = journal ?t @ evs \<and> DropTable \<notin> set evs \<and>
         directus_comments s1 = directus_comments ?t \<and>
         (r1 = None \<longrightarrow> reconciled evs = map c_id cs \<and> length (writes evs) = length cs) \<and>
         (r1 \<noteq> None \<longrightarrow> (\<exists>j<length cs. reconciled evs = map c_id (take (Suc j) cs)))" ..
    then have
      1: "journal s1 = journal ?t @ evs" "DropTable \<notin> set evs"
         "directus_comments s1 = directus_comments ?t"
         "r1 = None \<longrightarrow> reconciled evs = map c_id cs \<and> length (writes evs) = length cs"
      by blast+
    have r1: "r1 = None"
    proof (cases r1)
      case None
      then show ?thesis .
    next
      case (Some err)
      then have "down e s = (Some err, s1)"
        using loop by (simp add: down_unfold [OF assms(1)])
      with assms(2) rn show ?thesis by simp
    qed
    then have "down e s = dropTable s1"
      using loop by (simp add: down_unfold [OF assms(1)])
    with assms(2) have d: "dropTable s1 = (res, s')" by simp
    have c1: "directus_comments s1 = Some cs" using 1(3) assms(1) by simp
    from d c1 have s': "s' = s1\<lparr>directus_comments := None, journal := journal s1 @ [DropTable]\<rparr>"
      by (auto simp: dropTable_def sent_def)
    have a: "directus_comments s' = None" by (simp add: s')
    have b: "\<exists>evs. journal s' = journal s @ [SelectComments] @ evs @ [DropTable] \<and>
                   DropTable \<notin> set evs \<and> reconciled evs = map c_id cs \<and>
                   length (writes evs) = length cs"
      using 1 r1 by (intro exI [of _ evs]) (simp add: s')
    have c: "\<exists>t. down_rows e cs (sent SelectComments s) = (None, t) \<and> dropTable t = (res, s')"
      using loop r1 d by (intro exI [of _ s1]) (simp add: st)
    from a b c show "directus_comments s' = None \<and>
            (\<exists>evs. journal s' = journal s @ [SelectComments] @ evs @ [DropTable] \<and>
                   DropTable \<notin> set evs \<and> reconciled evs = map c_id cs \<and>
                   length (writes evs) = length cs) \<and>
            (\<exists>t. down_rows e cs (sent SelectComments s) = (None, t) \<and> dropTable t = (res, s'))"
      by (intro conjI)
  qed
  show ?thesis by (rule conjI [OF ok conjI [OF bad stop]])
qed

theorem down_drops_after_all_rows_witness:
  "fst (down_row broken_env twin_second
          (snd (down_rows broken_env [twin_first]
             (sent SelectComments
                (demo_with [demo_reference] [twin_first, twin_second, demo_comment])))))
     = Some ConstraintViolation \<and>
   fst (down broken_env (demo_with [demo_reference] [twin_first, twin_second, demo_comment]))
     = Some ConstraintViolation \<and>
   directus_comments (snd (down broken_env
       (demo_with [demo_reference] [twin_first, twin_second, demo_comment])))
     = Some [twin_first, twin_second, demo_comment] \<and>
   DropTable \<notin> set (journal (snd (down broken_env
       (demo_with [demo_reference] [twin_first, twin_second, demo_comment])))) \<and>
   fst (down demo_env (demo_with [demo_reference] [twin_first, twin_second, demo_comment])) = None \<and>
   directus_comments (snd (down demo_env
       (demo_with [demo_reference] [twin_first, twin_second, demo_comment]))) = None \<and>
   reconciled (journal (snd (down demo_env
       (demo_with [demo_reference] [twin_first, twin_second, demo_comment]))))
     = [''uuid-a'', ''uuid-b'', ''uuid-x'']"
proof -
  let ?cs = "[twin_first, twin_second, demo_comment]"
  let ?s = "demo_with [demo_reference] ?cs"
  let ?t = "snd (down_rows broken_env [twin_first] (sent SelectComments ?s))"
  let ?t' = "snd (down_row broken_env twin_second ?t)"
  have c: "directus_comments ?s = Some ?cs"
    by (simp add: demo_with_def)
  have j: "journal ?s = []" by (simp add: demo_with_def)
  have "fst (down_rows broken_env [twin_first] (sent SelectComments ?s)) = None" by code_simp
  then have pre: "down_rows broken_env (take (Suc 0) ?cs) (sent SelectComments ?s) = (None, ?t)"
    by (simp add: prod_eq_iff)
  have fr: "fst (down_row broken_env twin_second ?t) = Some ConstraintViolation" by code_simp
  then have row: "down_row broken_env (?cs ! Suc 0) ?t = (Some ConstraintViolation, ?t')"
    by (simp add: prod_eq_iff)
  have len: "Suc 0 < length ?cs" by simp
  note B = down_drops_after_all_rows [OF c surjective_pairing, of broken_env,
              THEN conjunct2, THEN conjunct2, rule_format, OF len pre row]
  from B have fb: "fst (down broken_env ?s) = Some ConstraintViolation" by (rule conjunct1)
  from B have b1: "directus_comments (snd (down broken_env ?s)) = Some ?cs"
    by blast
  from B have "DropTable \<notin> set (drop (length (journal ?s)) (journal (snd (down broken_env ?s))))"
    by blast
  then have b2: "DropTable \<notin> set (journal (snd (down broken_env ?s)))"
    by (simp add: j)
  note b = conjI [OF b1 b2]
  have fd: "fst (down demo_env ?s) = None" by code_simp
  have ids: "c_id twin_first = ''uuid-a''" "c_id twin_second = ''uuid-b''" "c_id demo_comment = ''uuid-x''"
    by (simp_all add: twin_first_def twin_second_def demo_comment_def)
  from down_drops_after_all_rows [OF c surjective_pairing, of demo_env, THEN conjunct1] fd
  have d: "directus_comments (snd (down demo_env ?s)) = None \<and>
           reconciled (journal (snd (down demo_env ?s))) = [''uuid-a'', ''uuid-b'', ''uuid-x'']"
    by (auto simp: j ids reconciled_append)
  from fr fb b d fd show ?thesis by blast
qed

text \<open>
  C5 (partial progress of \<open>up\<close>). Each row is migrated in a transaction of its own.
  Let the loop of \<open>up\<close> have processed the first \<open>j\<close> rows, in the order of processing,
  without error, reaching the database \<open>t\<close>, and let the transaction of the next row
  fail. Then \<open>up\<close> fails with that error and ends in the database that transaction
  left, and the two tables are those of \<open>t\<close>: the insert and the update of the failing
  row are undone and nothing else is. In terms of the database \<open>up\<close> started from:
  \<open>directus_comments\<close> holds the copies of the \<open>j\<close> rows before the failing one and
  nothing else, the activity rows of those \<open>j\<close> rows stay cross-references, and the
  failing row and all rows after it are in the activity table as they were.
  Conversely, when \<open>up\<close> fails on a database without the table, it fails in the
  transaction of some row \<open>j\<close>, after the \<open>j\<close> rows before it were processed without
  error.
\<close>

theorem up_failure_keeps_committed_rows:
  assumes "directus_comments s = None"
      and "distinct (map act_id (directus_activity s))"
      and "up e s = (res, s')"
  shows "(\<forall>j<length (select_activity_comments s). \<forall>t err t'.
            up_rows e (take j (select_activity_comments s))
              (sent SelectActivityComments (snd (createTable s))) = (None, t) \<longrightarrow>
            transaction (up_row e (select_activity_comments s ! j)) t = (Some err, t') \<longrightarrow>
              res = Some err \<and> s' = t' \<and>
              directus_comments s' = directus_comments t \<and>
              directus_activity s' = directus_activity t \<and>
              directus_comments s' = Some (map (\<lambda>(r, u). new_comment e r u) (take j (pairs e s))) \<and>
              directus_activity s' = map (marked (take j (pairs e s))) (directus_activity s) \<and>
              (\<forall>(r, u)\<in>set (take j (pairs e s)). cross_reference u r \<in> set (directus_activity s')) \<and>
              (\<forall>(r, u)\<in>set (drop j (pairs e s)). r \<in> set (directus_activity s'))) \<and>
         (res \<noteq> None \<longrightarrow>
            (\<exists>j<length (select_activity_comments s). \<exists>t.
               up_rows e (take j (select_activity_comments s))
                 (sent SelectActivityComments (snd (createTable s))) = (None, t) \<and>
               transaction (up_row e (select_activity_comments s ! j)) t = (res, s')))"
proof -
  have stop: "\<forall>j<length (select_activity_comments s). \<forall>t err t'.
            up_rows e (take j (select_activity_comments s))
              (sent SelectActivityComments (snd (createTable s))) = (None, t) \<longrightarrow>
            transaction (up_row e (select_activity_comments s ! j)) t = (Some err, t') \<longrightarrow>
              res = Some err \<and> s' = t' \<and>
              directus_comments s' = directus_comments t \<and>
              directus_activity s' = directus_activity t \<and>
              directus_comments s' = Some (map (\<lambda>(r, u). new_comment e r u) (take j (pairs e s))) \<and>
              directus_activity s' = map (marked (take j (pairs e s))) (directus_activity s) \<and>
              (\<forall>(r, u)\<in>set (take j (pairs e s)). cross_reference u r \<in> set (directus_activity s')) \<and>
              (\<forall>(r, u)\<in>set (drop j (pairs e s)). r \<in> set (directus_activity s'))"
  proof (intro allI impI)
    fix j t err t'
    assume j: "j < length (select_activity_comments s)"
      and pre: "up_rows e (take j (select_activity_comments s))
                  (sent SelectActivityComments (snd (createTable s))) = (None, t)"
      and row: "transaction (up_row e (select_activity_comments s ! j)) t = (Some err, t')"
    note U = up_stops_at [OF assms(1,2) j pre row]
    from U(1) assms(3) have eq: "res = Some err" "s' = t'" by simp_all
    have c1: "directus_comments s' = directus_comments t" using U(2) eq by simp
    have a1: "directus_activity s' = directus_activity t" using U(3) eq by simp
    have c2: "directus_comments s' = Some (map (\<lambda>(r, u). new_comment e r u) (take j (pairs e s)))"
      using U(4) eq by simp
    have a2: "directus_activity s' = map (marked (take j (pairs e s))) (directus_activity s)"
      using U(5) eq by simp
    note M = marked_split [OF assms(2) a2]
    from eq c1 a1 c2 a2 M
    show "res = Some err \<and> s' = t' \<and>
              directus_comments s' = directus_comments t \<and>
              directus_activity s' = directus_activity t \<and>
              directus_comments s' = Some (map (\<lambda>(r, u). new_comment e r u) (take j (pairs e s))) \<and>
              directus_activity s' = map (marked (take j (pairs e s))) (directus_activity s) \<and>
              (\<forall>(r, u)\<in>set (take j (pairs e s)). cross_reference u r \<in> set (directus_activity s')) \<and>
              (\<forall>(r, u)\<in>set (drop j (pairs e s)). r \<in> set (directus_activity s'))"
      by (intro conjI)
  qed
  have bad: "res \<noteq> None \<longrightarrow>
            (\<exists>j<length (select_activity_comments s). \<exists>t.
               up_rows e (take j (select_activity_comments s))
                 (sent SelectActivityComments (snd (createTable s))) = (None, t) \<and>
               transaction (up_row e (select_activity_comments s ! j)) t = (res, s'))"
  proof
    assume "res \<noteq> None"
    then obtain err where res: "res = Some err" by auto
    from assms(3) have fail: "up e s = (Some err, s')" by (simp add: res)
    from up_failure_row [OF assms(1) fail]
    show "\<exists>j<length (select_activity_comments s). \<exists>t.
               up_rows e (take j (select_activity_comments s))
                 (sent SelectActivityComments (snd (createTable s))) = (None, t) \<and>
               transaction (up_row e (select_activity_comments s ! j)) t = (res, s')"
      unfolding res .
  qed
  show ?thesis by (rule conjI [OF stop bad])
qed

theorem up_failure_keeps_committed_rows_witness:
  "fst (transaction (up_row strict_env (select_activity_comments demo_db ! Suc 0))
          (snd (up_rows strict_env (take (Suc 0) (select_activity_comments demo_db))
                  (sent SelectActivityComments (snd (createTable demo_db))))))
     = Some ConstraintViolation \<and>
   fst (up strict_env demo_db) = Some ConstraintViolation \<and>
   directus_comments (snd (up strict_env demo_db)) =
     Some [\<lparr>c_id = ''uuid-'', c_collection = ''articles'', c_item = ''7'',
            c_comment = Some ''first'', c_date_created = Some 1550000000,
            c_date_updated = Some 1700000000, c_user_created = None,
            c_user_updated = None\<rparr>] \<and>
   directus_activity (snd (up strict_env demo_db)) =
     [\<lparr>act_id = 5, act_action = COMMENT, act_collection = ''articles'', act_item = ''42'',
       act_comment = Some ''nice'', act_user = Some ''u1'', act_timestamp = Some 1600000000\<rparr>,
      \<lparr>act_id = 2, act_action = CREATE, act_collection = ''articles'', act_item = ''42'',
       act_comment = None, act_user = Some ''u1'', act_timestamp = Some 1500000000\<rparr>,
      \<lparr>act_id = 3, act_action = CREATE, act_collection = ''directus_comments'',
       act_item = ''uuid-'', act_comment = None, act_user = None,
       act_timestamp = Some 1550000000\<rparr>]"
proof -
  let ?rows = "select_activity_comments demo_db"
  let ?s0 = "sent SelectActivityComments (snd (createTable demo_db))"
  let ?t = "snd (up_rows strict_env (take (Suc 0) ?rows) ?s0)"
  let ?t' = "snd (transaction (up_row strict_env (?rows ! Suc 0)) ?t)"
  have 1: "directus_comments demo_db = None" by (simp add: demo_db_def)
  have 2: "distinct (map act_id (directus_activity demo_db))" by (simp add: demo_db_def)
  have len: "Suc 0 < length ?rows"
    by (simp add: select_activity_comments_def demo_db_def)
  have "fst (up_rows strict_env (take (Suc 0) ?rows) ?s0) = None" by code_simp
  then have pre: "up_rows strict_env (take (Suc 0) ?rows) ?s0 = (None, ?t)"
    by (simp add: prod_eq_iff)
  have fr: "fst (transaction (up_row strict_env (?rows ! Suc 0)) ?t) = Some ConstraintViolation"
    by code_simp
  then have row: "transaction (up_row strict_env (?rows ! Suc 0)) ?t = (Some ConstraintViolation, ?t')"
    by (simp add: prod_eq_iff)
  have ps: "pairs strict_env demo_db =
     [(\<lparr>act_id = 3, act_action = COMMENT, act_collection = ''articles'', act_item = ''7'',
        act_comment = Some ''first'', act_user = None, act_timestamp = Some 1550000000\<rparr>, ''uuid-''),
      (\<lparr>act_id = 5, act_action = COMMENT, act_collection = ''articles'', act_item = ''42'',
        act_comment = Some ''nice'', act_user = Some ''u1'', act_timestamp = Some 1600000000\<rparr>,
       ''uuid-x'')]"
    by (simp add: pairs_def select_activity_comments_def demo_db_def drawn_def strict_env_def
          demo_env_def upt_rec)
  note T = up_failure_keeps_committed_rows [OF 1 2 surjective_pairing, of strict_env,
              THEN conjunct1, rule_format, OF len pre row]
  from T have f: "fst (up strict_env demo_db) = Some ConstraintViolation" by (rule conjunct1)
  from T have "directus_comments (snd (up strict_env demo_db)) =
      Some (map (\<lambda>(r, u). new_comment strict_env r u) (take (Suc 0) (pairs strict_env demo_db)))"
    by blast
  then have c: "directus_comments (snd (up strict_env demo_db)) =
     Some [\<lparr>c_id = ''uuid-'', c_collection = ''articles'', c_item = ''7'',
            c_comment = Some ''first'', c_date_created = Some 1550000000,
            c_date_updated = Some 1700000000, c_user_created = None,
            c_user_updated = None\<rparr>]"
    unfolding ps by (simp add: new_comment_def strict_env_def demo_env_def)
  from T have "directus_activity (snd (up strict_env demo_db)) =
      map (marked (take (Suc 0) (pairs strict_env demo_db))) (directus_activity demo_db)"
    by blast
  then have a: "directus_activity (snd (up strict_env demo_db)) =
     [\<lparr>act_id = 5, act_action = COMMENT, act_collection = ''articles'', act_item = ''42'',
       act_comment = Some ''nice'', act_user = Some ''u1'', act_timestamp = Some 1600000000\<rparr>,
      \<lparr>act_id = 2, act_action = CREATE, act_collection = ''articles'', act_item = ''42'',
       act_comment = None, act_user = Some ''u1'', act_timestamp = Some 1500000000\<rparr>,
      \<lparr>act_id = 3, act_action = CREATE, act_collection = ''directus_comments'',
       act_item = ''uuid-'', act_comment = None, act_user = None,
       act_timestamp = Some 1550000000\<rparr>]"
    unfolding ps by (simp add: marked_def pair_of_def cross_reference_def demo_db_def)
  from fr f c a show ?thesis by (intro conjI)
qed

text \<open>
  C6 (fabrication), with the condition read at the moment of the search. When the
  loop of \<open>down\<close> reaches a row \<open>c\<close> of \<open>directus_comments\<close> and, in the activity table
  as it is at that moment, no row is a cross-reference to \<open>c\<close> and no row is a shadow
  of \<open>c\<close>, and the database accepts the new row, then the loop body appends exactly
  one row to \<open>directus_activity\<close>: action \<open>COMMENT\<close>, the collection, item and text of
  \<open>c\<close>, user \<open>user_created\<close>, timestamp \<open>date_created\<close>, under an identifier no row
  has yet. Read on the tables \<open>down\<close> starts from, the property does not hold: of two
  comments on the same item, neither with a cross-reference or a shadow, the second
  finds the row inserted for the first and overwrites its text, so that one row is
  inserted for the two (the last of the three theorems).
\<close>

theorem down_row_fabricates_once:
  assumes "\<forall>x\<in>set (directus_activity s). \<not> refers_to (c_id c) x"
      and "\<forall>x\<in>set (directus_activity s). \<not> shadows c x"
      and "activity_ok e (fabricated c (next_id (directus_activity s)))"
  shows "down_row e c s =
           (None, s\<lparr>directus_activity := directus_activity s @
                       [\<lparr>act_id = next_id (directus_activity s), act_action = COMMENT,
                         act_collection = c_collection c, act_item = c_item c,
                         act_comment = c_comment c, act_user = c_user_created c,
                         act_timestamp = c_date_created c\<rparr>],
                    journal := journal s @ [SelectMigrated (c_id c),
                       SelectUnmigrated (c_collection c) (c_item c), InsertActivity]\<rparr>) \<and>
         next_id (directus_activity s) \<notin> set (map act_id (directus_activity s))"
proof -
  have m: "migratedRecords c s = None"
    using assms(1) by (simp add: migratedRecords_find find_None_none)
  have u: "unmigratedRecords c s = None"
    using assms(2) by (simp add: unmigratedRecords_find find_None_none)
  have "next_id (directus_activity s) \<notin> set (map act_id (directus_activity s))"
    using next_id_above [of _ "directus_activity s"] by force
  moreover have "down_row e c s =
           (None, s\<lparr>directus_activity := directus_activity s @
                       [fabricated c (next_id (directus_activity s))],
                    journal := journal s @ [SelectMigrated (c_id c),
                       SelectUnmigrated (c_collection c) (c_item c), InsertActivity]\<rparr>)"
    unfolding down_row_fabricate [OF m u]
    using insert_activity_ok [of e "fabricated c"
       "s\<lparr>journal := journal s @ [SelectMigrated (c_id c),
                       SelectUnmigrated (c_collection c) (c_item c)]\<rparr>"] assms(3)
    by simp
  ultimately show ?thesis by (simp add: fabricated_def)
qed

theorem down_row_fabricates_once_witness:
  "down_row demo_env demo_comment (demo_with [demo_other] [demo_comment]) =
     (None, (demo_with [demo_other] [demo_comment])
        \<lparr>directus_activity := [demo_other,
            \<lparr>act_id = 3, act_action = COMMENT, act_collection = ''articles'',
             act_item = ''42'', act_comment = Some ''nice'', act_user = Some ''u1'',
             act_timestamp = Some 1600000000\<rparr>],
         journal := [SelectMigrated ''uuid-x'', SelectUnmigrated ''articles'' ''42'',
                     InsertActivity]\<rparr>)"
proof -
  let ?s = "demo_with [demo_other] [demo_comment]"
  have 1: "\<forall>x\<in>set (directus_activity ?s). \<not> refers_to (c_id demo_comment) x"
    by (simp add: demo_rows refers_to_def)
  have 2: "\<forall>x\<in>set (directus_activity ?s). \<not> shadows demo_comment x"
    by (simp add: demo_rows shadows_def)
  have 3: "activity_ok demo_env (fabricated demo_comment (next_id (directus_activity ?s)))"
    by (simp add: demo_rows demo_env_def fabricated_def)
  have n: "next_id (directus_activity ?s) = 3"
    by (simp add: demo_rows next_id_def)
  from down_row_fabricates_once [OF 1 2 3] show ?thesis
    unfolding n by (simp add: demo_rows)
qed

theorem fabrication_counterexample:
  "migratedRecords twin_first (demo_with [demo_other] [twin_first, twin_second]) = None \<and>
   unmigratedRecords twin_first (demo_with [demo_other] [twin_first, twin_second]) = None \<and>
   migratedRecords twin_second (demo_with [demo_other] [twin_first, twin_second]) = None \<and>
   unmigratedRecords twin_second (demo_with [demo_other] [twin_first, twin_second]) = None \<and>
   fst (down demo_env (demo_with [demo_other] [twin_first, twin_second])) = None \<and>
   directus_activity (snd (down demo_env (demo_with [demo_other] [twin_first, twin_second]))) =
     [demo_other,
      \<lparr>act_id = 3, act_action = COMMENT, act_collection = ''articles'', act_item = ''42'',
       act_comment = Some ''second'', act_user = Some ''u1'',
       act_timestamp = Some 1710000000\<rparr>]"
  by code_simp

text \<open>
  C7 (order of processing). The \<open>UPDATE\<close> statements \<open>up\<close> sends carry, in the order
  sent, an initial part of the ascending list of the identifiers of the commented
  rows, and all of the list when \<open>up\<close> completes: the rows are processed in ascending
  order of \<open>id\<close>. When the identifiers are unique, a second run on the same rows kept
  in another order (the list \<open>B\<close>) ends with the same result, the same
  \<open>directus_comments\<close>, row for row, the same statements sent, and the same rows in
  \<open>directus_activity\<close>.
\<close>

theorem up_order_is_deterministic:
  assumes "distinct (map act_id (directus_activity s))"
      and "mset B = mset (directus_activity s)"
  shows "(\<exists>evs k. journal (snd (up e s)) = journal s @ evs \<and>
            updated evs = take k (sort (map act_id
               (filter (\<lambda>r. act_comment r \<noteq> None) (directus_activity s)))) \<and>
            (fst (up e s) = None \<longrightarrow> updated evs =
               sort (map act_id (filter (\<lambda>r. act_comment r \<noteq> None) (directus_activity s))))) \<and>
         fst (up e (s\<lparr>directus_activity := B\<rparr>)) = fst (up e s) \<and>
         directus_comments (snd (up e (s\<lparr>directus_activity := B\<rparr>))) =
           directus_comments (snd (up e s)) \<and>
         journal (snd (up e (s\<lparr>directus_activity := B\<rparr>))) = journal (snd (up e s)) \<and>
         mset (directus_activity (snd (up e (s\<lparr>directus_activity := B\<rparr>)))) =
           mset (directus_activity (snd (up e s)))"
proof -
  let ?s' = "snd (up e s)"
  let ?t' = "snd (up e (s\<lparr>directus_activity := B\<rparr>))"
  from up_reordered [OF assms(2,1), of e]
  have r: "fst (up e (s\<lparr>directus_activity := B\<rparr>)) = fst (up e s)"
    and ro: "reordered ?s' ?t'"
    by simp_all
  from ro have m: "mset (directus_activity ?t') = mset (directus_activity ?s')"
    and t: "?t' = ?s'\<lparr>directus_activity := directus_activity ?t'\<rparr>"
    by (simp_all add: reordered_def)
  have c: "directus_comments ?t' = directus_comments ?s'" by (subst t) simp
  have j: "journal ?t' = journal ?s'" by (subst t) simp
  from up_updated [of e s] r c j m show ?thesis by blast
qed

theorem up_order_is_deterministic_witness:
  "updated (journal (snd (up demo_env shuffled_db))) = [1, 2, 3] \<and>
   fst (up demo_env
     (shuffled_db\<lparr>directus_activity := [demo_row 1 ''a'', demo_row 2 ''b'', demo_row 3 ''c'']\<rparr>)) = None \<and>
   directus_comments (snd (up demo_env
     (shuffled_db\<lparr>directus_activity := [demo_row 1 ''a'', demo_row 2 ''b'', demo_row 3 ''c'']\<rparr>))) =
     directus_comments (snd (up demo_env shuffled_db)) \<and>
   mset (directus_activity (snd (up demo_env
     (shuffled_db\<lparr>directus_activity := [demo_row 1 ''a'', demo_row 2 ''b'', demo_row 3 ''c'']\<rparr>)))) =
     mset (directus_activity (snd (up demo_env shuffled_db)))"
proof -
  let ?B = "[demo_row 1 ''a'', demo_row 2 ''b'', demo_row 3 ''c'']"
  have 1: "distinct (map act_id (directus_activity shuffled_db))"
    by (simp add: shuffled_db_fields demo_row_def)
  have 2: "mset ?B = mset (directus_activity shuffled_db)"
    by (simp add: shuffled_db_fields)
  have ok: "fst (up demo_env shuffled_db) = None" by code_simp
  have ids: "sort (map act_id (filter (\<lambda>r. act_comment r \<noteq> None) (directus_activity shuffled_db)))
             = [1, 2, 3]"
    by (simp add: shuffled_db_fields demo_row_def)
  note t = up_order_is_deterministic [OF 1 2, of demo_env]
  from t ok have "updated (journal (snd (up demo_env shuffled_db))) = [1, 2, 3]"
    unfolding ids by (auto simp: shuffled_db_fields)
  moreover from t ok have "fst (up demo_env (shuffled_db\<lparr>directus_activity := ?B\<rparr>)) = None"
    by simp
  moreover from t have "directus_comments (snd (up demo_env (shuffled_db\<lparr>directus_activity := ?B\<rparr>))) =
     directus_comments (snd (up demo_env shuffled_db))"
    by blast
  moreover from t have "mset (directus_activity (snd (up demo_env (shuffled_db\<lparr>directus_activity := ?B\<rparr>)))) =
     mset (directus_activity (snd (up demo_env shuffled_db)))"
    by blast
  ultimately show ?thesis by blast
qed



text \<open>
  C9 (rows without a comment). Let the activity identifiers be unique, and let the row
  at position \<open>i\<close> have no comment. Then the query of \<open>up\<close> does not return the
  row, the activity table keeps its length, the row at position \<open>i\<close> after \<open>up\<close> is
  the row before, no \<open>UPDATE\<close> with the identifier of the row is sent, and (when
  the table is new) every row of \<open>directus_comments\<close> is the copy of an activity row
  that has a comment. This holds whether \<open>up\<close> completes or fails.
\<close>

theorem up_leaves_uncommented_rows:
  assumes "distinct (map act_id (directus_activity s))"
      and "i < length (directus_activity s)"
      and "act_comment (directus_activity s ! i) = None"
  shows "directus_activity s ! i \<notin> set (select_activity_comments s) \<and>
         length (directus_activity (snd (up e s))) = length (directus_activity s) \<and>
         directus_activity (snd (up e s)) ! i = directus_activity s ! i \<and>
         (\<exists>evs. journal (snd (up e s)) = journal s @ evs \<and>
                UpdateActivity (act_id (directus_activity s ! i)) \<notin> set evs) \<and>
         (directus_comments s = None \<longrightarrow>
            (\<exists>new. directus_comments (snd (up e s)) = Some new \<and>
               (\<forall>c\<in>set new. \<exists>r\<in>set (directus_activity s). act_comment r \<noteq> None \<and>
                  (\<exists>u. c = \<lparr>c_id = u, c_collection = act_collection r, c_item = act_item r,
                              c_comment = act_comment r, c_date_created = act_timestamp r,
                              c_date_updated = Some (now e), c_user_created = act_user r,
                              c_user_updated = None\<rparr>))))"
proof -
  let ?x = "directus_activity s ! i"
  let ?I = "act_id ` set (select_activity_comments s)"
  have x_in: "?x \<in> set (directus_activity s)" using assms(2) by simp
  have not_sel: "?x \<notin> set (select_activity_comments s)"
    using assms(3) by (simp add: set_select)
  have out: "act_id ?x \<notin> ?I"
  proof
    assume "act_id ?x \<in> ?I"
    then obtain r where r: "r \<in> set (select_activity_comments s)" "act_id r = act_id ?x"
      by force
    then have "r \<in> set (directus_activity s)" "act_comment r \<noteq> None"
      by (simp_all add: set_select)
    with same_id_same_row [OF assms(1) _ x_in r(2)] assms(3) show False by auto
  qed
  have len: "length (directus_activity (snd (up e s))) = length (directus_activity s)"
    using up_frame(1) [of s e] by (metis length_map untouched_def)
  have same: "directus_activity (snd (up e s)) ! i = ?x"
    using up_frame(1) [of s e] assms(2) out by (simp add: untouched_def)
  have jr: "\<exists>evs. journal (snd (up e s)) = journal s @ evs \<and> UpdateActivity (act_id ?x) \<notin> set evs"
    using up_frame(2) [of s e] out unfolding updates_within_def by blast
  have cm: "directus_comments s = None \<longrightarrow>
            (\<exists>new. directus_comments (snd (up e s)) = Some new \<and>
               (\<forall>c\<in>set new. \<exists>r\<in>set (directus_activity s). act_comment r \<noteq> None \<and>
                  (\<exists>u. c = new_comment e r u)))"
    using up_frame(4) [of s e] unfolding set_select by blast
  from not_sel len same jr cm show ?thesis
    unfolding new_comment_def by blast
qed

theorem up_leaves_uncommented_rows_witness:
  "\<lparr>act_id = 2, act_action = CREATE, act_collection = ''articles'', act_item = ''42'',
     act_comment = None, act_user = Some ''u1'', act_timestamp = Some 1500000000\<rparr>
     \<notin> set (select_activity_comments demo_db) \<and>
   length (directus_activity (snd (up demo_env demo_db))) = 3 \<and>
   directus_activity (snd (up demo_env demo_db)) ! 1 =
     \<lparr>act_id = 2, act_action = CREATE, act_collection = ''articles'', act_item = ''42'',
      act_comment = None, act_user = Some ''u1'', act_timestamp = Some 1500000000\<rparr> \<and>
   (\<exists>evs. journal (snd (up demo_env demo_db)) = evs \<and> UpdateActivity 2 \<notin> set evs) \<and>
   (\<exists>new. directus_comments (snd (up demo_env demo_db)) = Some new \<and>
      (\<forall>c\<in>set new. \<exists>r\<in>set (directus_activity demo_db). act_comment r \<noteq> None \<and>
         (\<exists>u. c = \<lparr>c_id = u, c_collection = act_collection r, c_item = act_item r,
                     c_comment = act_comment r, c_date_created = act_timestamp r,
                     c_date_updated = Some (now demo_env), c_user_created = act_user r,
                     c_user_updated = None\<rparr>)))"
proof -
  have 1: "distinct (map act_id (directus_activity demo_db))" by (simp add: demo_db_fields)
  have 2: "1 < length (directus_activity demo_db)" by (simp add: demo_db_fields)
  have 3: "act_comment (directus_activity demo_db ! 1) = None" by (simp add: demo_db_fields)
  note t = up_leaves_uncommented_rows [OF 1 2 3, of demo_env]
  have a: "\<lparr>act_id = 2, act_action = CREATE, act_collection = ''articles'', act_item = ''42'',
     act_comment = None, act_user = Some ''u1'', act_timestamp = Some 1500000000\<rparr>
     \<notin> set (select_activity_comments demo_db) \<and>
   length (directus_activity (snd (up demo_env demo_db))) = 3 \<and>
   directus_activity (snd (up demo_env demo_db)) ! 1 =
     \<lparr>act_id = 2, act_action = CREATE, act_collection = ''articles'', act_item = ''42'',
      act_comment = None, act_user = Some ''u1'', act_timestamp = Some 1500000000\<rparr> \<and>
   (\<exists>evs. journal (snd (up demo_env demo_db)) = evs \<and> UpdateActivity 2 \<notin> set evs)"
    using t by (simp add: demo_db_fields numeral_3_eq_3)
  have "directus_comments demo_db = None" by (simp add: demo_db_fields)
  with t have b: "\<exists>new. directus_comments (snd (up demo_env demo_db)) = Some new \<and>
      (\<forall>c\<in>set new. \<exists>r\<in>set (directus_activity demo_db). act_comment r \<noteq> None \<and>
         (\<exists>u. c = \<lparr>c_id = u, c_collection = act_collection r, c_item = act_item r,
                     c_comment = act_comment r, c_date_created = act_timestamp r,
                     c_date_updated = Some (now demo_env), c_user_created = act_user r,
                     c_user_updated = None\<rparr>))"
    by blast
  from a b show ?thesis by blast
qed

text \<open>
  C10 (frame of the forward update). After \<open>up\<close>, completed or failed, every activity
  row is at its position either as it was or with new values for exactly \<open>action\<close>,
  \<open>collection\<close>, \<open>item\<close> and \<open>comment\<close>; the columns \<open>id\<close>, \<open>user\<close> and \<open>timestamp\<close>
  are the same, row by row.
\<close>

theorem up_changes_four_fields:
  "list_all2 (\<lambda>x y. y = x \<or>
        (\<exists>u. y = x\<lparr>act_action := CREATE, act_collection := ''directus_comments'',
                     act_item := u, act_comment := None\<rparr>))
     (directus_activity s) (directus_activity (snd (up e s))) \<and>
   map act_id (directus_activity (snd (up e s))) = map act_id (directus_activity s) \<and>
   map act_user (directus_activity (snd (up e s))) = map act_user (directus_activity s) \<and>
   map act_timestamp (directus_activity (snd (up e s))) = map act_timestamp (directus_activity s)"
proof -
  have m: "list_all2 (\<lambda>x y. y = x \<or> (\<exists>u. y = cross_reference u x))
             (directus_activity s) (directus_activity (snd (up e s)))"
    using up_frame(3) [of s e] by (simp add: marks_only_def)
  have "list_all2 (\<lambda>x y. act_id y = act_id x \<and> act_user y = act_user x \<and>
                          act_timestamp y = act_timestamp x)
          (directus_activity s) (directus_activity (snd (up e s)))"
    by (rule list_all2_mono [OF m]) (auto simp: cross_reference_def)
  then have "map act_id (directus_activity (snd (up e s))) = map act_id (directus_activity s) \<and>
             map act_user (directus_activity (snd (up e s))) = map act_user (directus_activity s) \<and>
             map act_timestamp (directus_activity (snd (up e s))) = map act_timestamp (directus_activity s)"
    by (auto simp: list_all2_conv_all_nth intro!: nth_equalityI)
  with m show ?thesis by (simp add: cross_reference_def)
qed

end
